(*
  Tesla-ESP-CAN: a shallow embedding of the vehicle-signal relay
  (CAN bit-field extractor, ESP-NOW packet codecs, receiver lifecycle,
  turn-signal smoothing, alert priority, tail rendering) and the
  properties of its specification settled against it.
*)

theory Spec2Isabelle
  imports Main "HOL-Library.Word"
begin

unbundle bit_operations_syntax

chapter \<open>The program\<close>

type_synonym u8 = "8 word"
type_synonym u16 = "16 word"
type_synonym u32 = "32 word"
type_synonym u64 = "64 word"

section \<open>Bit-field extractor (\<open>extract_moto_be\<close>, identical in the CAN listener and both transmitters)\<close>

text \<open>
  \<^verbatim>\<open>for (int i = 0; i < 8; i++) be = (be << 8) | data[i];\<close>
  The payload is the array \<open>data[8]\<close>, here a list read at the indices 0..7.
\<close>

definition be_load :: "u8 list \<Rightarrow> u64" where
  "be_load data = fold (\<lambda>i be. push_bit 8 be OR ucast (data ! i)) [0..<8] 0"

text \<open>
  \<^verbatim>\<open>uint8_t shift = 64 - startBit - len;\<close>
  The difference is computed in \<open>int\<close> and stored in a \<open>uint8_t\<close>, which is
  subtraction modulo 256.
\<close>

definition extract_shift :: "u8 \<Rightarrow> u8 \<Rightarrow> u8" where
  "extract_shift startBit len = 64 - startBit - len"

text \<open>\<^verbatim>\<open>uint64_t mask = (len == 64) ? UINT64_MAX : ((1ULL << len) - 1ULL);\<close>\<close>

definition extract_mask :: "u8 \<Rightarrow> u64" where
  "extract_mask len = (if len = 64 then - 1 else push_bit (unat len) 1 - 1)"

text \<open>\<^verbatim>\<open>return (be >> shift) & mask;\<close>\<close>

definition extract_moto_be :: "u8 list \<Rightarrow> u8 \<Rightarrow> u8 \<Rightarrow> u64" where
  "extract_moto_be data startBit len =
     drop_bit (unat (extract_shift startBit len)) (be_load data) AND extract_mask len"

text \<open>
  C leaves a shift of a 64-bit value by 64 or more undefined. These are the arguments at
  which \<open>be >> shift\<close> or \<open>1ULL << len\<close> is such a shift; the value of
  \<open>extract_moto_be\<close> there says nothing about the program.
\<close>

definition extract_undefined :: "u8 \<Rightarrow> u8 \<Rightarrow> bool" where
  "extract_undefined startBit len \<longleftrightarrow>
     64 \<le> unat (extract_shift startBit len) \<or> (len \<noteq> 64 \<and> 64 \<le> unat len)"

text \<open>
  The reference reading of a payload, for comparison: bit \<open>k\<close> of the big-endian
  reassembly, counted from the most significant bit, is bit \<open>7 - k mod 8\<close> of byte
  \<open>k div 8\<close>, and the reassembly as a number is \<open>\<Sum> data[i] * 256^(7-i)\<close>.
\<close>

definition be_bit :: "u8 list \<Rightarrow> nat \<Rightarrow> bool" where
  "be_bit data k = bit (data ! (k div 8)) (7 - k mod 8)"

definition be_value :: "u8 list \<Rightarrow> nat" where
  "be_value data = sum_list (map (\<lambda>i. unat (data ! i) * 256 ^ (7 - i)) [0..<8])"

section \<open>The LED strip (Adafruit_NeoPixel, an external library)\<close>

text \<open>
  The strip is the library's pixel buffer together with the frames latched out by
  \<open>show()\<close>, newest first. \<open>setPixelColor\<close> ignores an index beyond the strip, as the
  library does; \<open>Color\<close> packs red, green and blue into bits 16..23, 8..15 and 0..7.
  Global brightness scaling is left to the library.
\<close>

record NeoPixel =
  pixels :: "u32 list"
  shown :: "u32 list list"

definition numPixels :: "NeoPixel \<Rightarrow> u16" where
  "numPixels s = of_nat (length (pixels s))"

definition setPixelColor :: "NeoPixel \<Rightarrow> u16 \<Rightarrow> u32 \<Rightarrow> NeoPixel" where
  "setPixelColor s n c =
     (if unat n < length (pixels s) then s\<lparr>pixels := (pixels s)[unat n := c]\<rparr> else s)"

definition strip_clear :: "NeoPixel \<Rightarrow> NeoPixel" where
  "strip_clear s = s\<lparr>pixels := replicate (length (pixels s)) 0\<rparr>"

definition strip_show :: "NeoPixel \<Rightarrow> NeoPixel" where
  "strip_show s = s\<lparr>shown := pixels s # shown s\<rparr>"

definition Color :: "u8 \<Rightarrow> u8 \<Rightarrow> u8 \<Rightarrow> u32" where
  "Color r g b = push_bit 16 (ucast r) OR push_bit 8 (ucast g) OR ucast b"

section \<open>Wire format A: the packed \<open>Payload\<close> struct of the turn-signal relay\<close>

text \<open>
  \<^verbatim>\<open>struct __attribute__((packed)) Payload { uint8_t magic; uint8_t version;
    uint8_t leftStatus; uint8_t rightStatus; uint8_t flags; uint16_t seq; uint32_t ms;
    uint8_t crc; };\<close>
\<close>

record Payload =
  magic :: u8
  version :: u8
  leftStatus :: u8
  rightStatus :: u8
  flags :: u8
  seq :: u16
  ms :: u32
  crc :: u8

text \<open>
  The memory image of the struct, which is what \<open>esp_now_send\<close> transmits and what
  \<open>memcpy\<close> reads back: packed, so without padding, and little-endian on the ESP32
  (\<open>le_byte n w\<close> is byte \<open>n\<close> of \<open>w\<close> counted from the least significant one,
  \<open>le16\<close> and \<open>le32\<close> put the bytes back together). It is
  \<open>sizeof(Payload) = 12\<close> bytes long.
\<close>

definition le_byte :: "nat \<Rightarrow> 'a::len word \<Rightarrow> u8" where
  "le_byte n w = ucast (drop_bit (8 * n) w)"

definition le16 :: "u8 \<Rightarrow> u8 \<Rightarrow> u16" where
  "le16 b0 b1 = ucast b0 OR push_bit 8 (ucast b1)"

definition le32 :: "u8 \<Rightarrow> u8 \<Rightarrow> u8 \<Rightarrow> u8 \<Rightarrow> u32" where
  "le32 b0 b1 b2 b3 =
     ucast b0 OR push_bit 8 (ucast b1) OR push_bit 16 (ucast b2) OR push_bit 24 (ucast b3)"

definition Payload_bytes :: "Payload \<Rightarrow> u8 list" where
  "Payload_bytes p =
     [magic p, version p, leftStatus p, rightStatus p, flags p,
      le_byte 0 (seq p), le_byte 1 (seq p),
      le_byte 0 (ms p), le_byte 1 (ms p), le_byte 2 (ms p), le_byte 3 (ms p),
      crc p]"

definition Payload_of_bytes :: "u8 list \<Rightarrow> Payload" where
  "Payload_of_bytes b =
     \<lparr>magic = b ! 0, version = b ! 1, leftStatus = b ! 2, rightStatus = b ! 3, flags = b ! 4,
      seq = le16 (b ! 5) (b ! 6),
      ms = le32 (b ! 7) (b ! 8) (b ! 9) (b ! 10),
      crc = b ! 11\<rparr>"

definition sizeof_Payload :: nat where
  "sizeof_Payload = 12"

text \<open>
  \<^verbatim>\<open>uint8_t x = 0; for (size_t i = 0; i < sizeof(Payload)-1; i++) x ^= b[i]; return x;\<close>
  The transmitter calls it \<open>make_crc\<close>, the receiver \<open>calc_crc\<close>.
\<close>

definition make_crc :: "Payload \<Rightarrow> u8" where
  "make_crc p = fold (\<lambda>i x. x XOR Payload_bytes p ! i) [0..<sizeof_Payload - 1] 0"

definition calc_crc :: "Payload \<Rightarrow> u8" where
  "calc_crc p = fold (\<lambda>i x. x XOR Payload_bytes p ! i) [0..<sizeof_Payload - 1] 0"

section \<open>A frame read from the CAN controller (MCP_CAN, an external library)\<close>



section \<open>The format-A transmitter (ESP-NOW transmitter sketch)\<close>

text \<open>
  The globals of the sketch, the \<open>tx_\<close> fields being the globals of the same name
  without the prefix, and the three \<open>static\<close> locals of \<open>sendPacket\<close>.
\<close>

record tx_state =
  tx_seq :: u16
  tx_leftStatus :: u8
  tx_rightStatus :: u8
  tx_haveSeenData :: bool
  lastFrameMs :: u32
  lastHeartbeatMs :: u32
  prevL :: u8
  prevR :: u8
  prevFlags :: u8




text \<open>
  \<open>sendPacket(force)\<close>. The result is the list of radio frames handed to
  \<open>esp_now_send\<close> (none or one) and the globals afterwards; \<open>now\<close> is \<open>millis()\<close>.
\<close>

definition sendPacket :: "bool \<Rightarrow> u32 \<Rightarrow> tx_state \<Rightarrow> u8 list list \<times> tx_state" where
  "sendPacket force now st =
     (let flags' = (if tx_haveSeenData st then 0x01 else 0x00);
          changed = (tx_leftStatus st \<noteq> prevL st \<or> tx_rightStatus st \<noteq> prevR st
                      \<or> flags' \<noteq> prevFlags st)
      in if \<not> changed \<and> \<not> force then ([], st)
         else
           let p = \<lparr>magic = 0xA5, version = 1, leftStatus = tx_leftStatus st,
                    rightStatus = tx_rightStatus st, flags = flags', seq = tx_seq st + 1,
                    ms = now, crc = 0\<rparr>;
               p' = p\<lparr>crc := make_crc p\<rparr>
           in ([Payload_bytes p'],
               st\<lparr>tx_seq := tx_seq st + 1, prevL := tx_leftStatus st,
                  prevR := tx_rightStatus st, prevFlags := flags'\<rparr>))"




section \<open>The format-A receiver (ESP-NOW receiver sketch with LED output)\<close>

datatype Mode =
  DBG_BOOTING
| DBG_ESPNOW_INIT
| DBG_WAITING_FOR_LINK
| DBG_WAITING_FOR_DATA
| DBG_RUNNING
| DBG_ERROR

text \<open>
  The globals of the sketch; \<open>rx_mode\<close> is the global \<open>mode_\<close>, and the
  \<open>rx_\<close> fields are the globals of the same name without the prefix.
\<close>

record rx_state =
  rx_mode :: Mode
  rx_leftStatus :: u8
  rx_rightStatus :: u8
  rx_haveSeenData :: bool
  linkSeen :: bool
  lastPktMs :: u32
  lastShowMs :: u32
  linkBlinkActive :: bool
  linkBlinkStep :: u8
  linkBlinkNext :: u32
  strip :: NeoPixel

definition NUM_LEDS :: nat where
  "NUM_LEDS = 6"

definition LINK_TIMEOUT_MS :: u32 where
  "LINK_TIMEOUT_MS = 1000"

definition WAIT_BLINK_MS :: u16 where
  "WAIT_BLINK_MS = 600"

definition INIT_PULSE_MS :: u16 where
  "INIT_PULSE_MS = 700"

definition ERROR_FLASH_MS :: u16 where
  "ERROR_FLASH_MS = 250"

definition LINK_BLINK_ON_MS :: u32 where
  "LINK_BLINK_ON_MS = 200"

definition LINK_BLINK_OFF_MS :: u32 where
  "LINK_BLINK_OFF_MS = 200"

definition LINK_BLINK_COUNT :: u8 where
  "LINK_BLINK_COUNT = 3"

definition COLOR_LEFT_ON :: u32 where "COLOR_LEFT_ON = Color 0 255 0"
definition COLOR_RIGHT_ON :: u32 where "COLOR_RIGHT_ON = Color 0 0 255"
definition COLOR_FAULT :: u32 where "COLOR_FAULT = Color 255 200 0"
definition COLOR_SNA :: u32 where "COLOR_SNA = Color 0 0 80"
definition COLOR_OFF :: u32 where "COLOR_OFF = Color 0 0 0"
definition DBG_COLOR_BOOT :: u32 where "DBG_COLOR_BOOT = Color 0 120 120"
definition DBG_COLOR_WAIT :: u32 where "DBG_COLOR_WAIT = Color 80 80 80"
definition DBG_COLOR_ERROR :: u32 where "DBG_COLOR_ERROR = Color 255 0 0"
definition LINK_BLINK_COLOR :: u32 where "LINK_BLINK_COLOR = Color 0 255 0"

text \<open>\<^verbatim>\<open>for (uint8_t i=0;i<3;i++) strip.setPixelColor(startIdx+i, color);\<close>\<close>

definition setSide :: "u8 \<Rightarrow> u32 \<Rightarrow> NeoPixel \<Rightarrow> NeoPixel" where
  "setSide startIdx color s =
     fold (\<lambda>i s. setPixelColor s (ucast startIdx + of_nat i) color) [0..<3] s"

definition colorForStatus :: "u8 \<Rightarrow> bool \<Rightarrow> u32" where
  "colorForStatus s isLeft =
     (if s = 1 then (if isLeft then COLOR_LEFT_ON else COLOR_RIGHT_ON)
      else if s = 2 then COLOR_FAULT
      else if s = 3 then COLOR_SNA
      else COLOR_OFF)"

definition showIndicators :: "rx_state \<Rightarrow> rx_state" where
  "showIndicators st =
     st\<lparr>strip := strip_show
        (setSide 3 (colorForStatus (rx_rightStatus st) False)
          (setSide 0 (colorForStatus (rx_leftStatus st) True) (strip st)))\<rparr>"

text \<open>\<^verbatim>\<open>for (int i=0;i<NUM_LEDS;i++) strip.setPixelColor(i, c);\<close>\<close>

definition setAll :: "u32 \<Rightarrow> NeoPixel \<Rightarrow> NeoPixel" where
  "setAll c s = fold (\<lambda>i s. setPixelColor s (of_nat i) c) [0..<NUM_LEDS] s"

definition debugBootWipeOnce :: "NeoPixel \<Rightarrow> NeoPixel" where
  "debugBootWipeOnce s =
     strip_show (strip_clear
       (fold (\<lambda>i s. strip_show (setPixelColor (strip_clear s) (of_nat i) DBG_COLOR_BOOT))
          [0..<NUM_LEDS] s))"

text \<open>
  \<open>debugShowInit\<close> computes its brightness in single-precision floating point:
  \<^verbatim>\<open>float phase = ...; uint8_t b = 20 + uint8_t(phase * 180);\<close>
  The parameter \<open>initPulse\<close> stands for \<open>uint8_t(phase * 180)\<close> as a function of
  \<open>t = millis() % INIT_PULSE_MS\<close>.
\<close>

definition debugShowInit :: "(u16 \<Rightarrow> u8) \<Rightarrow> u32 \<Rightarrow> NeoPixel \<Rightarrow> NeoPixel" where
  "debugShowInit initPulse now s =
     (let t = (ucast (now mod ucast INIT_PULSE_MS) :: u16);
          b = 20 + initPulse t;
          c = Color b (b div 2) 0
      in strip_show (setAll c s))"

definition debugShowWaiting :: "u32 \<Rightarrow> NeoPixel \<Rightarrow> NeoPixel" where
  "debugShowWaiting now s =
     (let on = ((now div ucast WAIT_BLINK_MS) mod 2 = 0);
          c = (if on then DBG_COLOR_WAIT else COLOR_OFF)
      in strip_show (setSide 3 c (setSide 0 c s)))"

definition debugShowError :: "u32 \<Rightarrow> NeoPixel \<Rightarrow> NeoPixel" where
  "debugShowError now s =
     (let on = ((now div ucast ERROR_FLASH_MS) mod 2 = 0);
          c = (if on then DBG_COLOR_ERROR else COLOR_OFF)
      in strip_show (setAll c s))"

definition enterMode :: "Mode \<Rightarrow> rx_state \<Rightarrow> rx_state" where
  "enterMode m st =
     (let st' = st\<lparr>rx_mode := m\<rparr>
      in if m = DBG_BOOTING then st'\<lparr>strip := debugBootWipeOnce (strip st')\<rparr> else st')"

text \<open>
  The checks at the head of \<open>onRecv\<close>, each an early \<open>return\<close>:
  \<^verbatim>\<open>if (len != (int)sizeof(Payload)) return;
  Payload p; memcpy(&p, data, sizeof(Payload));
  if (p.magic != 0xA5 || p.version != 1) return;
  if (calc_crc(p) != p.crc) return;\<close>
\<close>

datatype reject = BadLength | BadMagic | BadVersion | BadCrc

definition onRecv_check :: "u8 list \<Rightarrow> reject + Payload" where
  "onRecv_check data =
     (if length data \<noteq> sizeof_Payload then Inl BadLength
      else
        let p = Payload_of_bytes data
        in if magic p \<noteq> 0xA5 then Inl BadMagic
           else if version p \<noteq> 1 then Inl BadVersion
           else if calc_crc p \<noteq> crc p then Inl BadCrc
           else Inr p)"

text \<open>
  \<open>onRecv(info, data, len)\<close>, with \<open>data\<close> the \<open>len\<close> received bytes and \<open>now\<close>
  the value of \<open>millis()\<close> during the callback.
\<close>

definition onRecv :: "u32 \<Rightarrow> u8 list \<Rightarrow> rx_state \<Rightarrow> rx_state" where
  "onRecv now data st =
     (case onRecv_check data of
        Inl _ \<Rightarrow> st
      | Inr p \<Rightarrow>
          let st1 = (if \<not> linkSeen st
                     then st\<lparr>linkBlinkActive := True, linkBlinkStep := 0, linkBlinkNext := now\<rparr>
                     else st);
              st2 = st1\<lparr>linkSeen := True, lastPktMs := now\<rparr>;
              st3 = st2\<lparr>rx_leftStatus := leftStatus p, rx_rightStatus := rightStatus p,
                        rx_haveSeenData := (flags p AND 0x01 \<noteq> 0)\<rparr>;
              st4 = (if rx_haveSeenData st3 \<and> rx_mode st3 \<noteq> DBG_RUNNING
                       then enterMode DBG_RUNNING st3
                     else if \<not> rx_haveSeenData st3 \<and> rx_mode st3 = DBG_RUNNING
                       then enterMode DBG_WAITING_FOR_DATA st3
                     else if \<not> rx_haveSeenData st3 \<and> rx_mode st3 = DBG_WAITING_FOR_LINK
                       then enterMode DBG_WAITING_FOR_DATA st3
                     else st3)
          in if rx_mode st4 = DBG_RUNNING then showIndicators st4 else st4)"

text \<open>The link-blink part of \<open>loop()\<close>, run while \<open>linkBlinkActive\<close>.\<close>

definition rx_blink :: "u32 \<Rightarrow> rx_state \<Rightarrow> rx_state" where
  "rx_blink now st =
     (if now \<ge> linkBlinkNext st
      then
        let st1 = (if linkBlinkStep st mod 2 = 0
                   then st\<lparr>strip := strip_show (setAll LINK_BLINK_COLOR (strip st)),
                           linkBlinkNext := now + LINK_BLINK_ON_MS\<rparr>
                   else st\<lparr>strip := strip_show (strip_clear (strip st)),
                           linkBlinkNext := now + LINK_BLINK_OFF_MS\<rparr>);
            st2 = st1\<lparr>linkBlinkStep := linkBlinkStep st1 + 1\<rparr>
        in if linkBlinkStep st2 \<ge> LINK_BLINK_COUNT * 2
           then st2\<lparr>linkBlinkActive := False,
                    strip := strip_show (strip_clear (strip st2))\<rparr>
           else st2
      else st)"

text \<open>
  One pass of the receiver's \<open>loop()\<close>; all readings of \<open>millis()\<close> within the pass
  are taken to be the same instant \<open>now\<close>.
\<close>

definition rx_loop :: "(u16 \<Rightarrow> u8) \<Rightarrow> u32 \<Rightarrow> rx_state \<Rightarrow> rx_state" where
  "rx_loop initPulse now st =
     (if linkBlinkActive st then rx_blink now st
      else
        let st1 = (if rx_mode st = DBG_ESPNOW_INIT
                     then st\<lparr>strip := debugShowInit initPulse now (strip st)\<rparr>
                   else if rx_mode st = DBG_WAITING_FOR_LINK
                           \<or> (rx_mode st = DBG_WAITING_FOR_DATA \<and> \<not> rx_haveSeenData st)
                     then st\<lparr>strip := debugShowWaiting now (strip st)\<rparr>
                   else if rx_mode st = DBG_ERROR
                     then st\<lparr>strip := debugShowError now (strip st)\<rparr>
                   else st);
            st2 = (if linkSeen st1 \<and> now - lastPktMs st1 > LINK_TIMEOUT_MS
                   then enterMode DBG_WAITING_FOR_LINK
                          (st1\<lparr>linkSeen := False, rx_haveSeenData := False,
                               rx_leftStatus := 0, rx_rightStatus := 0,
                               strip := strip_show (strip_clear (strip st1))\<rparr>)
                   else st1)
        in if rx_mode st2 = DBG_RUNNING \<and> now - lastShowMs st2 > 120
           then (showIndicators st2)\<lparr>lastShowMs := now\<rparr>
           else st2)"

text \<open>
  The globals before \<open>setup()\<close> and after it; \<open>init_ok\<close> is
  \<open>esp_now_init() == ESP_OK\<close>. The receive callback is registered only when it holds.
\<close>

definition rx_boot :: rx_state where
  "rx_boot =
     \<lparr>rx_mode = DBG_BOOTING, rx_leftStatus = 0, rx_rightStatus = 0, rx_haveSeenData = False,
      linkSeen = False, lastPktMs = 0, lastShowMs = 0, linkBlinkActive = False,
      linkBlinkStep = 0, linkBlinkNext = 0,
      strip = \<lparr>pixels = replicate NUM_LEDS 0, shown = []\<rparr>\<rparr>"

definition rx_setup :: "bool \<Rightarrow> rx_state" where
  "rx_setup init_ok =
     (let st0 = rx_boot\<lparr>strip := strip_show (strip_clear (strip rx_boot))\<rparr>;
          st1 = enterMode DBG_BOOTING st0;
          st2 = enterMode DBG_ESPNOW_INIT st1
      in if \<not> init_ok then enterMode DBG_ERROR st2
         else enterMode DBG_WAITING_FOR_LINK st2)"

text \<open>What happens to the receiver: a radio frame arrives, or \<open>loop()\<close> runs once.\<close>

datatype rx_event = Recv u32 "u8 list" | Tick u32

fun rx_step :: "(u16 \<Rightarrow> u8) \<Rightarrow> rx_state \<Rightarrow> rx_event \<Rightarrow> rx_state" where
  "rx_step initPulse st (Recv now data) = onRecv now data st"
| "rx_step initPulse st (Tick now) = rx_loop initPulse now st"

definition rx_run :: "(u16 \<Rightarrow> u8) \<Rightarrow> rx_event list \<Rightarrow> rx_state \<Rightarrow> rx_state" where
  "rx_run initPulse evs st = foldl (rx_step initPulse) st evs"

section \<open>Wire format B: sequence number and state bits (web transmitter and receiver)\<close>

text \<open>
  \<^verbatim>\<open>typedef struct __attribute__((packed)) { uint8_t left_on : 1; uint8_t right_on : 1;
    uint8_t ap_on : 1; uint8_t charging : 1; uint8_t plugged : 1; uint8_t track_on : 1;
    uint8_t reserved : 2; } StateBits;\<close>
  One-bit fields are booleans here. In the byte image the fields are allocated from the
  least significant bit upwards, as the compiler for the ESP32 does.
\<close>

record StateBits =
  left_on :: bool
  right_on :: bool
  ap_on :: bool
  charging :: bool
  plugged :: bool
  track_on :: bool
  reserved :: "2 word"


definition StateBits_of_byte :: "u8 \<Rightarrow> StateBits" where
  "StateBits_of_byte w =
     \<lparr>left_on = bit w 0, right_on = bit w 1, ap_on = bit w 2, charging = bit w 3,
      plugged = bit w 4, track_on = bit w 5, reserved = ucast (drop_bit 6 w)\<rparr>"

definition StateBits_zero :: StateBits where
  "StateBits_zero =
     \<lparr>left_on = False, right_on = False, ap_on = False, charging = False,
      plugged = False, track_on = False, reserved = 0\<rparr>"

text \<open>
  \<^verbatim>\<open>typedef struct __attribute__((packed)) { uint32_t seq; StateBits bits; } TxPacket;\<close>
  The receiver declares the same struct as \<open>RxPacket\<close>. Five bytes, little-endian.
\<close>

record Packet =
  pkt_seq :: u32
  bits :: StateBits


definition Packet_of_bytes :: "u8 list \<Rightarrow> Packet" where
  "Packet_of_bytes d =
     \<lparr>pkt_seq = le32 (d ! 0) (d ! 1) (d ! 2) (d ! 3), bits = StateBits_of_byte (d ! 4)\<rparr>"

definition sizeof_Packet :: nat where
  "sizeof_Packet = 5"

section \<open>The format-B transmitter (web transmitter sketch)\<close>









section \<open>The format-B receiver (web receiver sketch with two ambient strips)\<close>

datatype RGB = RGB u8 u8 u8

record TurnSide =
  active :: bool
  lastSeenMs :: u32

record EffectEn =
  eff_alerts :: bool
  eff_turn :: bool
  eff_charging :: bool
  eff_ap :: bool
  eff_track :: bool
  eff_plugged :: bool

definition TURN_COLOR :: RGB where "TURN_COLOR = RGB 255 128 0"
definition AUTOPILOT_COLOR :: RGB where "AUTOPILOT_COLOR = RGB 0 64 255"
definition CHARGING_COLOR :: RGB where "CHARGING_COLOR = RGB 0 255 0"
definition PLUGGED_COLOR :: RGB where "PLUGGED_COLOR = RGB 32 32 32"
definition TRACK_COLOR :: RGB where "TRACK_COLOR = RGB 255 0 64"

definition P_TURN :: u8 where "P_TURN = 0"
definition P_CHARGING :: u8 where "P_CHARGING = 1"
definition P_AUTOPILOT :: u8 where "P_AUTOPILOT = 2"
definition P_TRACK :: u8 where "P_TRACK = 3"
definition P_PLUGGED :: u8 where "P_PLUGGED = 4"
definition P_NONE :: u8 where "P_NONE = 255"


record rxw_state =
  ambientColor :: RGB
  g_eff :: EffectEn
  g_turnPulseMs :: u16
  g_statusPulseMs :: u16
  g_frameMs :: u16
  g_turnLossHoldMs :: u16
  g_lastPkt :: Packet
  g_hasPkt :: bool
  g_lastRSSI :: int
  g_tailLeft :: u8
  g_tailRight :: u8
  g_lastPktMs :: u32
  stripL :: NeoPixel
  stripR :: NeoPixel
  g_leftTurn :: TurnSide
  g_rightTurn :: TurnSide
  g_testMode :: bool
  g_testBits :: StateBits
  loop_lastFrameMs :: u32

fun toColor :: "RGB \<Rightarrow> u32" where
  "toColor (RGB r g b) = push_bit 16 (ucast r) OR push_bit 8 (ucast g) OR ucast b"

text \<open>\<^verbatim>\<open>for(uint16_t i=0;i<s.numPixels();++i) s.setPixelColor(i,col);\<close>\<close>

definition fillAmbient :: "RGB \<Rightarrow> NeoPixel \<Rightarrow> NeoPixel" where
  "fillAmbient ambient s =
     fold (\<lambda>i s. setPixelColor s (of_nat i) (toColor ambient)) [0..<unat (numPixels s)] s"

text \<open>
  \<open>fillTail\<close>:
  \<^verbatim>\<open>int16_t n=s.numPixels(); int16_t st=n-tail; if(st<0) st=0;
  for(int16_t i=st;i<n;++i) s.setPixelColor((uint16_t)i,col);\<close>
  An \<open>int16_t\<close> is a 16-bit word read as two's complement: the conversions from
  \<open>uint16_t\<close> and to \<open>uint16_t\<close> keep the bits, \<open>n - tail\<close> stored in an
  \<open>int16_t\<close> is subtraction modulo \<open>2^16\<close>, and the comparisons are signed.
  \<open>fillTail_loop\<close> is the \<open>for\<close> loop; it yields the indices handed to
  \<open>setPixelColor\<close>, in order.
\<close>

function fillTail_loop :: "16 word \<Rightarrow> 16 word \<Rightarrow> u16 list" where
  "fillTail_loop i n = (if i <s n then i # fillTail_loop (i + 1) n else [])"
  by pat_completeness auto
termination
proof (relation "measure (\<lambda>(i, n). nat (sint n - sint i))")
  show "wf (measure (\<lambda>(i, n). nat (sint n - sint i)))"
    by simp
next
  fix i n :: "16 word"
  assume "i <s n"
  then have lt: "sint i < sint n"
    by (simp add: word_sless_alt)
  have "sint n < 2 ^ (LENGTH(16) - 1)"
    by (rule sint_lt)
  then have up: "sint i + 1 < 32768"
    using lt by simp
  have "- (2 ^ (LENGTH(16) - 1)) \<le> sint i"
    by (rule sint_ge)
  then have lo: "- 32768 \<le> sint i + 1"
    by simp
  have "sint (i + 1) = signed_take_bit (LENGTH(16) - 1) (sint i + sint (1 :: 16 word))"
    by (rule sint_word_ariths)
  also have "\<dots> = sint i + 1"
    using lo up by (simp add: signed_take_bit_int_eq_self)
  finally show "((i + 1, n), (i, n)) \<in> measure (\<lambda>(i, n). nat (sint n - sint i))"
    using lt by simp
qed

definition fillTail_indices :: "u16 \<Rightarrow> u8 \<Rightarrow> u16 list" where
  "fillTail_indices np tail =
     (let n = np;
          st = n - ucast tail;
          st' = (if st <s 0 then 0 else st)
      in fillTail_loop st' n)"

definition fillTail :: "NeoPixel \<Rightarrow> RGB \<Rightarrow> u8 \<Rightarrow> NeoPixel" where
  "fillTail s c tail =
     fold (\<lambda>i s. setPixelColor s i (toColor c)) (fillTail_indices (numPixels s) tail) s"

text \<open>
  \<open>updateTurnSide(ts, rawOn, now)\<close>, with the global \<open>g_turnLossHoldMs\<close> it reads as
  first argument. The \<open>uint16_t\<close> threshold is compared with the \<open>uint32_t\<close>
  difference \<open>now-ts.lastSeenMs\<close>, which wraps around.
\<close>

definition updateTurnSide :: "u16 \<Rightarrow> TurnSide \<Rightarrow> bool \<Rightarrow> u32 \<Rightarrow> TurnSide" where
  "updateTurnSide hold ts rawOn now =
     (if rawOn then ts\<lparr>active := True, lastSeenMs := now\<rparr>
      else if active ts \<and> now - lastSeenMs ts > ucast hold then ts\<lparr>active := False\<rparr>
      else ts)"

text \<open>\<open>pickPriority(turnActive, b)\<close>, with the global \<open>g_eff\<close> it reads as first argument.\<close>

definition pickPriority :: "EffectEn \<Rightarrow> bool \<Rightarrow> StateBits \<Rightarrow> u8" where
  "pickPriority eff turnActive b =
     (if \<not> eff_alerts eff then P_NONE
      else if turnActive \<and> eff_turn eff then P_TURN
      else if charging b \<and> eff_charging eff then P_CHARGING
      else if ap_on b \<and> eff_ap eff then P_AUTOPILOT
      else if track_on b \<and> eff_track eff then P_TRACK
      else if plugged b \<and> eff_plugged eff then P_PLUGGED
      else P_NONE)"

text \<open>
  \<open>applySidePulse\<close> scales the category colour in single-precision floating point:
  \<^verbatim>\<open>float f=pulseFactor(now,period); fillTail(s, scaleRGB(col,f), tail);\<close>
  The parameter \<open>pulse\<close> stands for \<open>scaleRGB(col, pulseFactor(now, period))\<close> as a
  function of the colour, the time and the period.
\<close>

definition applySidePulse ::
  "(RGB \<Rightarrow> u32 \<Rightarrow> u16 \<Rightarrow> RGB) \<Rightarrow> rxw_state \<Rightarrow> NeoPixel \<Rightarrow> u8 \<Rightarrow> u32 \<Rightarrow> u8 \<Rightarrow> NeoPixel" where
  "applySidePulse pulse st s pr now tail =
     (let s1 = fillAmbient (ambientColor st) s
      in if pr = P_NONE then s1
         else if pr = P_TURN then fillTail s1 (pulse TURN_COLOR now (g_turnPulseMs st)) tail
         else if pr = P_CHARGING then fillTail s1 (pulse CHARGING_COLOR now (g_statusPulseMs st)) tail
         else if pr = P_AUTOPILOT then fillTail s1 (pulse AUTOPILOT_COLOR now (g_statusPulseMs st)) tail
         else if pr = P_TRACK then fillTail s1 (pulse TRACK_COLOR now (g_statusPulseMs st)) tail
         else if pr = P_PLUGGED then fillTail s1 (pulse PLUGGED_COLOR now (g_statusPulseMs st)) tail
         else s1)"

text \<open>
  \<open>on_data_recv(info, incoming, len)\<close>: \<open>incoming\<close> are the \<open>len\<close> received bytes,
  \<open>rssi\<close> is \<open>info->rx_ctrl->rssi\<close> when both pointers are set, \<open>now\<close> is
  \<open>millis()\<close>. Serial logging is left out.
\<close>

definition on_data_recv :: "int option \<Rightarrow> u32 \<Rightarrow> u8 list \<Rightarrow> rxw_state \<Rightarrow> rxw_state" where
  "on_data_recv rssi now incoming st =
     (if length incoming = sizeof_Packet
      then
        let st1 = st\<lparr>g_lastPkt := Packet_of_bytes incoming, g_hasPkt := True\<rparr>;
            st2 = st1\<lparr>g_lastPktMs := now\<rparr>
        in (case rssi of Some v \<Rightarrow> st2\<lparr>g_lastRSSI := v\<rparr> | None \<Rightarrow> st2)
      else st)"



text \<open>
  One pass of the web receiver's \<open>loop()\<close> after \<open>server.handleClient()\<close>, with
  \<open>now = millis()\<close>; \<open>loop_lastFrameMs\<close> is the loop's \<open>static lastFrameMs\<close>.
\<close>

definition rxw_loop :: "(RGB \<Rightarrow> u32 \<Rightarrow> u16 \<Rightarrow> RGB) \<Rightarrow> u32 \<Rightarrow> rxw_state \<Rightarrow> rxw_state" where
  "rxw_loop pulse now st =
     (if now - loop_lastFrameMs st < ucast (g_frameMs st) then st
      else
        let st1 = st\<lparr>loop_lastFrameMs := now\<rparr>;
            (srcBits, has) = (if g_testMode st1 then (g_testBits st1, True)
                              else (bits (g_lastPkt st1), g_hasPkt st1))
        in if \<not> has
           then st1\<lparr>stripL := strip_show (fillAmbient (ambientColor st1) (stripL st1)),
                    stripR := strip_show (fillAmbient (ambientColor st1) (stripR st1))\<rparr>
           else
             let st2 = st1\<lparr>g_leftTurn :=
                            updateTurnSide (g_turnLossHoldMs st1) (g_leftTurn st1) (left_on srcBits) now\<rparr>;
                 st3 = st2\<lparr>g_rightTurn :=
                            updateTurnSide (g_turnLossHoldMs st2) (g_rightTurn st2) (right_on srcBits) now\<rparr>;
                 prL = pickPriority (g_eff st3) (active (g_leftTurn st3)) srcBits;
                 prR = pickPriority (g_eff st3) (active (g_rightTurn st3)) srcBits
             in st3\<lparr>stripL := strip_show (applySidePulse pulse st3 (stripL st3) prL now (g_tailLeft st3)),
                     stripR := strip_show (applySidePulse pulse st3 (stripR st3) prR now (g_tailRight st3))\<rparr>)"

text \<open>
  The globals as the sketch initialises them, before any stored preference is loaded:
  strips of 67 and 50 pixels, tails of 6, every effect enabled, the "Normal" timing preset.
\<close>

definition rxw_boot :: rxw_state where
  "rxw_boot =
     \<lparr>ambientColor = RGB 60 0 180,
      g_eff = \<lparr>eff_alerts = True, eff_turn = True, eff_charging = True, eff_ap = True,
               eff_track = True, eff_plugged = True\<rparr>,
      g_turnPulseMs = 600, g_statusPulseMs = 1000, g_frameMs = 10, g_turnLossHoldMs = 200,
      g_lastPkt = \<lparr>pkt_seq = 0, bits = StateBits_zero\<rparr>, g_hasPkt = False, g_lastRSSI = 0,
      g_tailLeft = 6, g_tailRight = 6, g_lastPktMs = 0,
      stripL = \<lparr>pixels = replicate 67 0, shown = []\<rparr>,
      stripR = \<lparr>pixels = replicate 50 0, shown = []\<rparr>,
      g_leftTurn = \<lparr>active = False, lastSeenMs = 0\<rparr>,
      g_rightTurn = \<lparr>active = False, lastSeenMs = 0\<rparr>,
      g_testMode = False, g_testBits = StateBits_zero, loop_lastFrameMs = 0\<rparr>"

text \<open>What happens to the web receiver: a radio frame arrives, or \<open>loop()\<close> runs once.\<close>

datatype rxw_event = RecvW "int option" u32 "u8 list" | TickW u32

fun rxw_step :: "(RGB \<Rightarrow> u32 \<Rightarrow> u16 \<Rightarrow> RGB) \<Rightarrow> rxw_state \<Rightarrow> rxw_event \<Rightarrow> rxw_state" where
  "rxw_step pulse st (RecvW rssi now data) = on_data_recv rssi now data st"
| "rxw_step pulse st (TickW now) = rxw_loop pulse now st"

definition rxw_run :: "(RGB \<Rightarrow> u32 \<Rightarrow> u16 \<Rightarrow> RGB) \<Rightarrow> rxw_event list \<Rightarrow> rxw_state \<Rightarrow> rxw_state" where
  "rxw_run pulse evs st = foldl (rxw_step pulse) st evs"

chapter \<open>Notions for stating the properties\<close>

section \<open>Runs of the debouncer\<close>

text \<open>
  One side's smoothing state after a series of render ticks, each given by its raw sample
  and its time, oldest first.
\<close>

definition updateTurnSide_run :: "u16 \<Rightarrow> TurnSide \<Rightarrow> (bool \<times> u32) list \<Rightarrow> TurnSide" where
  "updateTurnSide_run hold ts samples =
     foldl (\<lambda>ts (rawOn, now). updateTurnSide hold ts rawOn now) ts samples"

section \<open>Corruption on the air\<close>

text \<open>
  A radio frame with one bit flipped: bit \<open>k mod 8\<close> of byte \<open>k div 8\<close>, for
  \<open>k\<close> below eight times the length of the frame.
\<close>

definition flip_wire_bit :: "nat \<Rightarrow> u8 list \<Rightarrow> u8 list" where
  "flip_wire_bit k d = d[k div 8 := d ! (k div 8) XOR push_bit (k mod 8) 1]"

section \<open>Packets the web receiver accepted\<close>


section \<open>The lifecycle of the format-A receiver\<close>


section \<open>Frames that differ in the sequence number only\<close>

text \<open>
  A format-A frame with its sequence field (bytes 5 and 6) overwritten by \<open>s\<close> and its
  checksum byte adjusted by the same difference, so that a frame with a right checksum
  keeps a right one and a frame with a wrong checksum keeps a wrong one. A frame of
  another length is left alone.
\<close>

definition reseq_A :: "u16 \<Rightarrow> u8 list \<Rightarrow> u8 list" where
  "reseq_A s d =
     (if length d = sizeof_Payload
      then d[5 := le_byte 0 s, 6 := le_byte 1 s,
             11 := d ! 11 XOR d ! 5 XOR d ! 6 XOR le_byte 0 s XOR le_byte 1 s]
      else d)"

fun rx_event_reseq :: "u16 \<Rightarrow> rx_event \<Rightarrow> rx_event" where
  "rx_event_reseq s (Recv now d) = Recv now (reseq_A s d)"
| "rx_event_reseq s (Tick now) = Tick now"

text \<open>
  A format-B frame with its sequence field (bytes 0 to 3) overwritten by \<open>s\<close>; the
  format has no checksum.
\<close>

definition reseq_B :: "u32 \<Rightarrow> u8 list \<Rightarrow> u8 list" where
  "reseq_B s d =
     (if length d = sizeof_Packet
      then d[0 := le_byte 0 s, 1 := le_byte 1 s, 2 := le_byte 2 s, 3 := le_byte 3 s]
      else d)"

fun rxw_event_reseq :: "u32 \<Rightarrow> rxw_event \<Rightarrow> rxw_event" where
  "rxw_event_reseq s (RecvW rssi now d) = RecvW rssi now (reseq_B s d)"
| "rxw_event_reseq s (TickW now) = TickW now"

text \<open>
  The web receiver stores the whole last packet. This is its state with the stored
  sequence number blanked, everything else kept: state bits, packet flag, timestamps,
  signal strength, both strips with all frames shown, both debouncers, configuration.
\<close>

definition rxw_forget_seq :: "rxw_state \<Rightarrow> rxw_state" where
  "rxw_forget_seq st = st\<lparr>g_lastPkt := (g_lastPkt st)\<lparr>pkt_seq := 0\<rparr>\<rparr>"

chapter \<open>Properties\<close>

section \<open>Bit-field extractor\<close>

lemma upt8: "[0..<8] = [0,1,2,3,4,5,6,7]"
  by (simp add: upt_rec)

lemma be_load_unfold:
  "be_load data = push_bit 56 (ucast (data ! 0)) OR push_bit 48 (ucast (data ! 1)) OR
     push_bit 40 (ucast (data ! 2)) OR push_bit 32 (ucast (data ! 3)) OR
     push_bit 24 (ucast (data ! 4)) OR push_bit 16 (ucast (data ! 5)) OR
     push_bit 8 (ucast (data ! 6)) OR ucast (data ! 7)"
  by (simp add: be_load_def upt8 push_bit_or push_bit_push_bit ac_simps )

lemma byte_idx:
  assumes "j < (64::nat)"
  shows "(63 - j) div 8 = 7 - j div 8" "7 - (63 - j) mod 8 = j mod 8"
proof -
  define q r where "q = j div 8" and "r = j mod 8"
  define r' where "r' = 7 - r"
  have r: "r < 8" by (simp add: r_def)
  have r': "r' < 8" "r = 7 - r'" using r by (simp_all add: r'_def)
  have j: "j = 8 * q + r" by (simp add: q_def r_def)
  have q: "q < 8" using assms j by linarith
  have e: "63 - j = 8 * (7 - q) + r'" using j q r by (simp add: r'_def)
  show "(63 - j) div 8 = 7 - j div 8"
    unfolding e q_def [symmetric] using r' by simp
  have "(63 - j) mod 8 = r'"
    unfolding e using r' by simp
  then show "7 - (63 - j) mod 8 = j mod 8"
    unfolding r_def [symmetric] using r' by simp
qed

lemma bit_push_byte:
  "bit (push_bit (8 * k) (ucast (d :: u8)) :: u64) j \<longleftrightarrow> k < 8 \<and> j div 8 = k \<and> bit d (j mod 8)"
proof (cases "j div 8 = k")
  case True
  define r where "r = j mod 8"
  have r: "r < 8" by (simp add: r_def)
  have j: "j = 8 * k + r" unfolding r_def True [symmetric] by simp
  have "j < 64 \<longleftrightarrow> k < 8" using r j by linarith
  then show ?thesis using True r
    by (auto simp: bit_simps j dest: bit_imp_le_length)
next
  case False
  have "j < 8 * k \<or> 8 \<le> j - 8 * k"
  proof (rule ccontr)
    assume "\<not> ?thesis"
    then have "8 * k \<le> j" "j < 8 * k + 8" by linarith+
    then have "j div 8 = k" by (simp add: div_nat_eqI mult.commute)
    with False show False by simp
  qed
  then show ?thesis using False
    by (auto simp: bit_simps dest: bit_imp_le_length)
qed

lemma be_bit_rev: "j < 64 \<Longrightarrow> be_bit data (63 - j) = bit (data ! (7 - j div 8)) (j mod 8)"
  by (simp add: be_bit_def byte_idx)

lemma be_load_bit: "bit (be_load data) j \<longleftrightarrow> j < 64 \<and> be_bit data (63 - j)"
proof (cases "j < 64")
  case False
  then show ?thesis by (auto dest: bit_imp_le_length)
next
  case True
  have u: "bit (ucast (d :: u8) :: u64) j \<longleftrightarrow> j div 8 = 0 \<and> bit d (j mod 8)" for d
    using bit_push_byte [of 0 d j] by simp
  have p: "bit (push_bit 56 (ucast d) :: u64) j \<longleftrightarrow> j div 8 = 7 \<and> bit d (j mod 8)"
    "bit (push_bit 48 (ucast d) :: u64) j \<longleftrightarrow> j div 8 = 6 \<and> bit d (j mod 8)"
    "bit (push_bit 40 (ucast d) :: u64) j \<longleftrightarrow> j div 8 = 5 \<and> bit d (j mod 8)"
    "bit (push_bit 32 (ucast d) :: u64) j \<longleftrightarrow> j div 8 = 4 \<and> bit d (j mod 8)"
    "bit (push_bit 24 (ucast d) :: u64) j \<longleftrightarrow> j div 8 = 3 \<and> bit d (j mod 8)"
    "bit (push_bit 16 (ucast d) :: u64) j \<longleftrightarrow> j div 8 = 2 \<and> bit d (j mod 8)"
    "bit (push_bit 8 (ucast d) :: u64) j \<longleftrightarrow> j div 8 = 1 \<and> bit d (j mod 8)" for d :: u8
    using bit_push_byte [of 7 d j] bit_push_byte [of 6 d j] bit_push_byte [of 5 d j]
      bit_push_byte [of 4 d j] bit_push_byte [of 3 d j] bit_push_byte [of 2 d j]
      bit_push_byte [of 1 d j]
    by simp_all
  from True have "j div 8 < 8" by presburger
  then consider "j div 8 = 0" | "j div 8 = 1" | "j div 8 = 2" | "j div 8 = 3"
    | "j div 8 = 4" | "j div 8 = 5" | "j div 8 = 6" | "j div 8 = 7"
    by linarith
  then show ?thesis
    unfolding be_load_unfold bit_or_iff u p be_bit_rev [OF True]
    using True by cases simp_all
qed


lemma or_byte_eq_add: "push_bit 8 (be :: u64) OR ucast (d :: u8) = be * 256 + ucast d"
proof -
  have "push_bit 8 be AND (ucast d :: u64) = 0"
    by (rule bit_word_eqI) (auto simp: bit_simps dest: bit_imp_le_length)
  then have "push_bit 8 be + ucast d = push_bit 8 be OR ucast d"
    by (rule disjunctive_add_eq_or)
  then show ?thesis by (simp add: push_bit_eq_mult)
qed

lemma be_load_of_nat: "be_load data = of_nat (be_value data)"
  by (simp add: be_load_def be_value_def upt8 or_byte_eq_add algebra_simps)

lemma be_value_bound: "be_value data < 2 ^ 64"
proof -
  have "unat (data ! i) < 256" for i
    using unsigned_less [of "data ! i", where ?'a = nat] by simp
  from this [of 0] this [of 1] this [of 2] this [of 3] this [of 4] this [of 5] this [of 6] this [of 7]
  show ?thesis
    by (simp add: be_value_def upt8)
qed

lemma unat_be_load: "unat (be_load data) = be_value data"
  using be_value_bound [of data] by (simp add: be_load_of_nat unat_of_nat)

lemma extract_shift_unat:
  assumes "unat startBit + unat len \<le> 64"
  shows "unat (extract_shift startBit len) = 64 - unat startBit - unat len"
proof -
  have "unat startBit \<le> 64" using assms by simp
  then have "startBit \<le> 64" by (simp add: word_le_nat_alt)
  then have a: "unat (64 - startBit) = 64 - unat startBit"
    by (simp add: unat_sub)
  have "unat len \<le> unat (64 - startBit)" using assms a by simp
  then have "len \<le> 64 - startBit" by (simp add: word_le_nat_alt)
  then show ?thesis unfolding extract_shift_def using a by (simp add: unat_sub)
qed

lemma extract_mask_eq:
  assumes "unat len \<le> 64"
  shows "extract_mask len = mask (unat len)"
proof (cases "len = 64")
  case True
  have "(mask 64 :: u64) = - 1"
    by (rule bit_word_eqI) (simp add: bit_simps)
  with True show ?thesis by (simp add: extract_mask_def)
next
  case False
  then show ?thesis by (simp add: extract_mask_def mask_eq_exp_minus_1 push_bit_eq_mult)
qed

lemma extract_moto_be_take_drop:
  assumes "unat startBit + unat len \<le> 64"
  shows "extract_moto_be data startBit len =
    take_bit (unat len) (drop_bit (64 - unat startBit - unat len) (be_load data))"
proof -
  have "unat len \<le> 64" using assms by simp
  then show ?thesis
    by (simp add: extract_moto_be_def extract_shift_unat [OF assms] extract_mask_eq take_bit_eq_mask)
qed

lemma extract_moto_be_bit:
  assumes "1 \<le> unat len" "unat startBit + unat len \<le> 64"
  shows "bit (extract_moto_be data startBit len) j \<longleftrightarrow>
    j < unat len \<and> be_bit data (unat startBit + unat len - 1 - j)"
proof (cases "j < unat len")
  case False
  then show ?thesis by (simp add: extract_moto_be_take_drop [OF assms(2)] bit_simps)
next
  case True
  have a: "64 - unat startBit - unat len + j < 64" using True assms by linarith
  have b: "63 - (64 - unat startBit - unat len + j) = unat startBit + unat len - 1 - j"
    using True assms by linarith
  have "bit (extract_moto_be data startBit len) j \<longleftrightarrow>
      bit (be_load data) (64 - unat startBit - unat len + j)"
    using True by (simp add: extract_moto_be_take_drop [OF assms(2)] bit_simps)
  also have "\<dots> \<longleftrightarrow> be_bit data (63 - (64 - unat startBit - unat len + j))"
    using a by (simp only: be_load_bit simp_thms)
  finally show ?thesis using True by (simp only: b simp_thms)
qed

lemma extract_moto_be_unat:
  assumes "unat startBit + unat len \<le> 64"
  shows "unat (extract_moto_be data startBit len) =
    be_value data div 2 ^ (64 - unat startBit - unat len) mod 2 ^ unat len"
proof -
  have "unat (extract_moto_be data startBit len) =
      take_bit (unat len) (unat (drop_bit (64 - unat startBit - unat len) (be_load data)))"
    by (simp only: extract_moto_be_take_drop [OF assms] unsigned_take_bit_eq)
  also have "\<dots> = take_bit (unat len) (drop_bit (64 - unat startBit - unat len) (be_value data))"
    by (simp only: unat_drop_bit_eq unat_be_load)
  finally show ?thesis by (simp only: take_bit_eq_mod drop_bit_eq_div)
qed


lemma extract_defined:
  assumes "1 \<le> unat len" "unat startBit + unat len \<le> 64"
  shows "\<not> extract_undefined startBit len"
proof -
  have "unat len < 64 \<or> len = 64"
  proof (cases "unat len = 64")
    case True
    then have "unat len = unat (64 :: u8)" by simp
    then have "len = 64" using word_unat_eq_iff by blast
    then show ?thesis ..
  next
    case False
    then show ?thesis using assms by simp
  qed
  then show ?thesis
    using assms by (auto simp: extract_undefined_def extract_shift_unat)
qed

text \<open>
  Claim C1. For every 8-byte payload and every start bit and width with
  \<open>width \<ge> 1\<close> and \<open>start + width \<le> 64\<close>, \<open>extract_moto_be\<close> performs no undefined
  shift and returns the bits \<open>[start, start+width)\<close> of the big-endian reassembly of the
  payload, right-aligned: bit \<open>j\<close> of the result is bit \<open>start + width - 1 - j\<close> of the
  reassembly (counted from its most significant bit) for \<open>j < width\<close> and clear above;
  as a number the result is \<open>(be div 2^(64-start-width)) mod 2^width\<close>; and it equals
  \<open>(be >> (64-start-width)) & ((1 << width) - 1)\<close>, with the all-ones mask at width 64.
\<close>

theorem extract_moto_be_field:
  assumes "length data = 8" and "1 \<le> unat len" and "unat startBit + unat len \<le> 64"
  shows "\<not> extract_undefined startBit len
    \<and> (\<forall>j. bit (extract_moto_be data startBit len) j \<longleftrightarrow>
          j < unat len \<and> be_bit data (unat startBit + unat len - 1 - j))
    \<and> unat (extract_moto_be data startBit len) =
          be_value data div 2 ^ (64 - unat startBit - unat len) mod 2 ^ unat len
    \<and> extract_moto_be data startBit len =
          drop_bit (64 - unat startBit - unat len) (of_nat (be_value data))
            AND (if unat len = 64 then - 1 else 2 ^ unat len - 1)"
proof -
  have w: "unat len \<le> 64" using assms(3) by simp
  have m: "extract_mask len = (if unat len = 64 then - 1 else 2 ^ unat len - 1)"
  proof (cases "unat len = 64")
    case True
    have "(mask 64 :: u64) = - 1"
      by (rule bit_word_eqI) (simp add: bit_simps)
    with True show ?thesis by (simp add: extract_mask_eq [OF w])
  next
    case False
    then show ?thesis by (simp add: extract_mask_eq [OF w] mask_eq_exp_minus_1)
  qed
  have "extract_moto_be data startBit len =
      drop_bit (64 - unat startBit - unat len) (of_nat (be_value data))
        AND (if unat len = 64 then - 1 else 2 ^ unat len - 1)"
    unfolding extract_moto_be_def extract_shift_unat [OF assms(3)] m be_load_of_nat ..
  then show ?thesis
    using extract_defined [OF assms(2,3)] extract_moto_be_bit [OF assms(2,3)]
      extract_moto_be_unat [OF assms(3)]
    by blast
qed

theorem extract_moto_be_field_witness:
  "length [0, 0, 0, 0, 0, 0, 0x24, 0 :: u8] = 8 \<and> 1 \<le> unat (2 :: u8)
    \<and> unat (50 :: u8) + unat (2 :: u8) \<le> 64
    \<and> \<not> extract_undefined 50 2
    \<and> unat (extract_moto_be [0, 0, 0, 0, 0, 0, 0x24, 0] 50 2) = 2
    \<and> bit (extract_moto_be [0, 0, 0, 0, 0, 0, 0x24, 0] 50 2) 1"
proof -
  have h: "length [0, 0, 0, 0, 0, 0, 0x24, 0 :: u8] = 8" "1 \<le> unat (2 :: u8)"
    "unat (50 :: u8) + unat (2 :: u8) \<le> 64"
    by simp_all
  have v: "be_value [0, 0, 0, 0, 0, 0, 0x24, 0] = 9216"
    by (simp add: be_value_def upt8)
  have b: "be_bit [0, 0, 0, 0, 0, 0, 0x24, 0] 50"
    by (simp add: be_bit_def)
  from extract_moto_be_field [OF h] v b show ?thesis
    by simp
qed

section \<open>Format-A codec\<close>

lemma le16_roundtrip: "le16 (le_byte 0 w) (le_byte 1 w) = w"
  unfolding le16_def le_byte_def
  by (rule bit_word_eqI) (auto simp: bit_simps)

lemma le32_roundtrip: "le32 (le_byte 0 w) (le_byte 1 w) (le_byte 2 w) (le_byte 3 w) = w"
  unfolding le32_def le_byte_def
proof (rule bit_word_eqI)
  fix n
  assume "n < LENGTH(32)"
  then have n: "n < 32" by simp
  consider "n < 8" | "8 \<le> n" "n < 16" | "16 \<le> n" "n < 24" | "24 \<le> n"
    by linarith
  then show "bit (ucast (ucast (drop_bit (8 * 0) w) :: u8)
     OR push_bit 8 (ucast (ucast (drop_bit (8 * 1) w) :: u8))
     OR push_bit 16 (ucast (ucast (drop_bit (8 * 2) w) :: u8))
     OR push_bit 24 (ucast (ucast (drop_bit (8 * 3) w) :: u8)) :: u32) n = bit w n"
    using n by cases (auto simp: bit_simps)
qed

lemma le_byte_le16:
  "le_byte 0 (le16 b0 b1) = b0" "le_byte 1 (le16 b0 b1) = b1"
  unfolding le16_def le_byte_def
  by (rule bit_word_eqI; auto simp: bit_simps dest: bit_imp_le_length)+

lemma le_byte_le32:
  "le_byte 0 (le32 b0 b1 b2 b3) = b0" "le_byte 1 (le32 b0 b1 b2 b3) = b1"
  "le_byte 2 (le32 b0 b1 b2 b3) = b2" "le_byte 3 (le32 b0 b1 b2 b3) = b3"
  unfolding le32_def le_byte_def
  by (rule bit_word_eqI; auto simp: bit_simps dest: bit_imp_le_length)+

lemmas le_roundtrip_Suc =
  le16_roundtrip [unfolded One_nat_def] le32_roundtrip [unfolded One_nat_def]
  le_byte_le16 [unfolded One_nat_def] le_byte_le32 [unfolded One_nat_def]

lemma Payload_roundtrip: "Payload_of_bytes (Payload_bytes p) = (p :: Payload)"
  by (simp add: Payload_of_bytes_def Payload_bytes_def le_roundtrip_Suc)

lemma Payload_bytes_length: "length (Payload_bytes p) = 12"
  by (simp add: Payload_bytes_def)

lemma calc_crc_make_crc: "calc_crc p = make_crc p"
  by (simp add: calc_crc_def make_crc_def)

lemma make_crc_ignores_crc: "make_crc (p\<lparr>crc := c\<rparr>) = make_crc p"
  by (simp add: make_crc_def Payload_bytes_def sizeof_Payload_def upt_rec)

lemma onRecv_check_valid:
  assumes "magic p = 0xA5" and "version p = 1" and "crc p = make_crc p"
  shows "onRecv_check (Payload_bytes p) = Inr (p :: Payload)"
  using assms
  by (simp add: onRecv_check_def Payload_bytes_length sizeof_Payload_def Payload_roundtrip
      calc_crc_make_crc)

lemma and_1_bit0: "(w AND 1 \<noteq> 0) = bit (w :: u8) 0"
  by (simp add: and_one_eq bit_0 odd_iff_mod_2_eq_one)

lemma setSide_pixels_length [simp]: "length (pixels (setSide i c s)) = length (pixels s)"
  by (simp add: setSide_def upt_rec setPixelColor_def)

lemma onRecv_accept:
  assumes "onRecv_check d = Inr p"
  shows "rx_leftStatus (onRecv now d st) = leftStatus p"
    and "rx_rightStatus (onRecv now d st) = rightStatus p"
    and "rx_haveSeenData (onRecv now d st) = bit (flags p) 0"
    and "linkSeen (onRecv now d st)"
    and "lastPktMs (onRecv now d st) = now"
    and "rx_mode (onRecv now d st) =
      (if bit (flags p) 0 then DBG_RUNNING
       else if rx_mode st = DBG_RUNNING \<or> rx_mode st = DBG_WAITING_FOR_LINK
         then DBG_WAITING_FOR_DATA
       else rx_mode st)"
  using assms
  by (simp_all add: onRecv_def Let_def enterMode_def showIndicators_def and_1_bit0)

lemma onRecv_reject:
  assumes "onRecv_check d = Inl e"
  shows "onRecv now d st = st"
  using assms by (simp add: onRecv_def)

lemma sendPacket_sent:
  assumes "fst (sendPacket force t tx) = [d]"
  shows "d = Payload_bytes
      \<lparr>magic = 0xA5, version = 1, leftStatus = tx_leftStatus tx,
       rightStatus = tx_rightStatus tx,
       flags = (if tx_haveSeenData tx then 1 else 0), seq = tx_seq tx + 1, ms = t,
       crc = make_crc
         \<lparr>magic = 0xA5, version = 1, leftStatus = tx_leftStatus tx,
          rightStatus = tx_rightStatus tx,
          flags = (if tx_haveSeenData tx then 1 else 0), seq = tx_seq tx + 1, ms = t,
          crc = 0\<rparr>\<rparr>"
  using assms by (simp add: sendPacket_def Let_def split: if_splits)

text \<open>
  Claim C2. Every format-A packet \<open>p\<close> with the magic byte \<open>0xA5\<close>, version 1 and a
  trailing checksum that is the XOR of the preceding bytes passes the receiver's checks,
  and the receiver reads back exactly the fields that were encoded: the struct it copies
  out of the frame is \<open>p\<close>, and its state takes the two status codes and the data-seen
  flag of \<open>p\<close>. Every frame the transmitter sends is such a packet, carrying the
  transmitter's own status codes and data-seen flag.
\<close>

theorem decode_encode:
  fixes p :: Payload
  assumes "magic p = 0xA5" and "version p = 1" and "crc p = make_crc p"
  shows "onRecv_check (Payload_bytes p) = Inr p
    \<and> rx_leftStatus (onRecv now (Payload_bytes p) st) = leftStatus p
    \<and> rx_rightStatus (onRecv now (Payload_bytes p) st) = rightStatus p
    \<and> rx_haveSeenData (onRecv now (Payload_bytes p) st) = bit (flags p) 0
    \<and> (fst (sendPacket force t tx) = [d] \<longrightarrow>
         (\<exists>q. onRecv_check d = Inr q \<and> d = Payload_bytes q \<and> seq q = tx_seq tx + 1 \<and> ms q = t)
         \<and> rx_leftStatus (onRecv now d st) = tx_leftStatus tx
         \<and> rx_rightStatus (onRecv now d st) = tx_rightStatus tx
         \<and> rx_haveSeenData (onRecv now d st) = tx_haveSeenData tx)"
proof -
  have v: "onRecv_check (Payload_bytes p) = Inr p"
    using assms by (rule onRecv_check_valid)
  have t: "fst (sendPacket force t tx) = [d] \<longrightarrow>
         (\<exists>q. onRecv_check d = Inr q \<and> d = Payload_bytes q \<and> seq q = tx_seq tx + 1 \<and> ms q = t)
         \<and> rx_leftStatus (onRecv now d st) = tx_leftStatus tx
         \<and> rx_rightStatus (onRecv now d st) = tx_rightStatus tx
         \<and> rx_haveSeenData (onRecv now d st) = tx_haveSeenData tx"
  proof
    assume s: "fst (sendPacket force t tx) = [d]"
    define p0 :: Payload where "p0 =
      \<lparr>magic = 0xA5, version = 1, leftStatus = tx_leftStatus tx,
       rightStatus = tx_rightStatus tx,
       flags = (if tx_haveSeenData tx then 1 else 0), seq = tx_seq tx + 1, ms = t,
       crc = 0\<rparr>"
    define q where "q = p0\<lparr>crc := make_crc p0\<rparr>"
    have d: "d = Payload_bytes q"
      using sendPacket_sent [OF s] by (simp add: q_def p0_def)
    have f: "magic q = 0xA5" "version q = 1" "leftStatus q = tx_leftStatus tx"
      "rightStatus q = tx_rightStatus tx" "bit (flags q) 0 = tx_haveSeenData tx"
      "seq q = tx_seq tx + 1" "ms q = t"
      by (simp_all add: q_def p0_def)
    have "crc q = make_crc q"
      by (simp add: q_def make_crc_ignores_crc)
    with f(1,2) have c: "onRecv_check d = Inr q"
      unfolding d by (rule onRecv_check_valid)
    have "\<exists>q. onRecv_check d = Inr q \<and> d = Payload_bytes q \<and> seq q = tx_seq tx + 1 \<and> ms q = t"
      using c d f(6,7) by blast
    then show "(\<exists>q. onRecv_check d = Inr q \<and> d = Payload_bytes q \<and> seq q = tx_seq tx + 1 \<and> ms q = t)
         \<and> rx_leftStatus (onRecv now d st) = tx_leftStatus tx
         \<and> rx_rightStatus (onRecv now d st) = tx_rightStatus tx
         \<and> rx_haveSeenData (onRecv now d st) = tx_haveSeenData tx"
      by (simp only: onRecv_accept [OF c] f simp_thms)
  qed
  from v t show ?thesis
    by (simp add: onRecv_accept [OF v])
qed

lemma list12:
  assumes "length d = 12"
  obtains b0 b1 b2 b3 b4 b5 b6 b7 b8 b9 b10 b11
  where "d = [b0, b1, b2, b3, b4, b5, b6, b7, b8, b9, b10, b11]"
proof -
  from assms have "length d = Suc (Suc (Suc (Suc (Suc (Suc (Suc (Suc (Suc (Suc (Suc (Suc 0)))))))))))"
    by simp
  then show ?thesis
    by (auto simp: length_Suc_conv intro: that)
qed

lemma Payload_bytes_of_bytes:
  assumes "length d = 12"
  shows "Payload_bytes (Payload_of_bytes d) = d"
proof -
  from assms obtain b0 b1 b2 b3 b4 b5 b6 b7 b8 b9 b10 b11
    where "d = [b0, b1, b2, b3, b4, b5, b6, b7, b8, b9, b10, b11]"
    by (rule list12)
  then show ?thesis
    by (simp add: Payload_bytes_def Payload_of_bytes_def le_byte_le16 le_byte_le32 le_roundtrip_Suc)
qed

lemma upt11: "[0..<11] = [0, 1, 2, 3, 4, 5, 6, 7, 8, 9, 10]"
  by (simp add: upt_rec)

lemma calc_crc_of_bytes:
  assumes "length d = 12"
  shows "calc_crc (Payload_of_bytes d) =
    d ! 0 XOR d ! 1 XOR d ! 2 XOR d ! 3 XOR d ! 4 XOR d ! 5 XOR d ! 6 XOR d ! 7 XOR d ! 8
      XOR d ! 9 XOR d ! 10"
  by (simp add: calc_crc_def Payload_bytes_of_bytes [OF assms] sizeof_Payload_def upt11
      ac_simps)

lemma onRecv_check_bytes:
  assumes "length d = 12"
  shows "onRecv_check d =
    (if d ! 0 \<noteq> 0xA5 then Inl BadMagic
     else if d ! 1 \<noteq> 1 then Inl BadVersion
     else if d ! 0 XOR d ! 1 XOR d ! 2 XOR d ! 3 XOR d ! 4 XOR d ! 5 XOR d ! 6 XOR d ! 7
        XOR d ! 8 XOR d ! 9 XOR d ! 10 \<noteq> d ! 11 then Inl BadCrc
     else Inr (Payload_of_bytes d))"
proof -
  have "magic (Payload_of_bytes d) = d ! 0" "version (Payload_of_bytes d) = d ! 1"
    "crc (Payload_of_bytes d) = d ! 11"
    by (simp_all add: Payload_of_bytes_def)
  then show ?thesis
    using assms
    by (simp add: onRecv_check_def sizeof_Payload_def Let_def calc_crc_of_bytes [OF assms])
qed

lemma onRecv_check_length:
  "onRecv_check d = Inr p \<Longrightarrow> length d = 12"
  by (simp add: onRecv_check_def sizeof_Payload_def split: if_splits)

lemma bit_mask_nonzero:
  assumes "j < 8"
  shows "(push_bit j 1 :: u8) \<noteq> 0"
  using assms by (simp add: push_bit_eq_mult exp_eq_zero_iff)

lemma xor_mask_neq:
  assumes "m \<noteq> (0 :: u8)"
  shows "x XOR m \<noteq> x"
proof
  assume "x XOR m = x"
  then have "x XOR (x XOR m) = x XOR x"
    by simp
  then have "m = 0"
    by (simp flip: xor.assoc)
  with assms show False
    by simp
qed

lemma flip_wire_bit_length: "length (flip_wire_bit k d) = length d"
  by (simp add: flip_wire_bit_def)

lemma flip_wire_bit_nth:
  assumes "i < length d"
  shows "flip_wire_bit k d ! i =
    (if i = k div 8 then d ! i XOR push_bit (k mod 8) 1 else d ! i)"
  using assms by (simp add: flip_wire_bit_def nth_list_update)

text \<open>
  Claim C3, as the code has it. An encoded format-A packet is 12 bytes long, not 11 (the
  checksum covers the first 11). Every frame the receiver accepts has 12 bytes, and
  flipping any single one of its bits makes the receiver reject it: at the magic check for a bit of
  byte 0, at the version check for a bit of byte 1, and at the checksum check for any
  other bit; and the receiver's state after the corrupted frame is the state before it,
  in every component.
\<close>

theorem single_bit_flip_rejected:
  assumes "onRecv_check d = Inr p" and "k < 8 * length d"
  shows "length d = 12
    \<and> onRecv_check (flip_wire_bit k d) =
      Inl (if k < 8 then BadMagic else if k < 16 then BadVersion else BadCrc)
    \<and> onRecv now (flip_wire_bit k d) st = st"
proof -
  let ?d = "flip_wire_bit k d"
  let ?m = "push_bit (k mod 8) 1 :: u8"
  have len: "length d = 12"
    using assms(1) by (rule onRecv_check_length)
  have k96: "k < 96"
    using assms(2) len by simp
  have len': "length ?d = 12"
    using len by (simp add: flip_wire_bit_length)
  have ok: "d ! 0 = 0xA5" "d ! 1 = 1"
    "d ! 0 XOR d ! 1 XOR d ! 2 XOR d ! 3 XOR d ! 4 XOR d ! 5 XOR d ! 6 XOR d ! 7
        XOR d ! 8 XOR d ! 9 XOR d ! 10 = d ! 11"
    using assms(1) unfolding onRecv_check_bytes [OF len]
    by (simp_all split: if_splits)
  have m: "?m \<noteq> 0"
    by (rule bit_mask_nonzero) simp
  note x = xor_mask_neq [OF m]
  have nth: "?d ! i = (if i = k div 8 then d ! i XOR ?m else d ! i)" if "i < 12" for i
    using that len by (simp add: flip_wire_bit_nth)
  have r: "k div 8 < 12"
    using k96 by simp
  have k8: "k < 8 \<longleftrightarrow> k div 8 = 0" and k16: "k < 16 \<longleftrightarrow> k div 8 = 0 \<or> k div 8 = 1"
    by (simp_all add: div_eq_0_iff) linarith
  define b where "b = k div 8"
  have "b < 12"
    using r by (simp only: b_def)
  then have "b = 0 \<or> b = 1 \<or> b = 2 \<or> b = 3 \<or> b = 4 \<or> b = 5 \<or> b = 6 \<or> b = 7
      \<or> b = 8 \<or> b = 9 \<or> b = 10 \<or> b = 11"
    by presburger
  then have "k div 8 = 0 \<or> k div 8 = 1 \<or> k div 8 = 2 \<or> k div 8 = 3 \<or> k div 8 = 4
      \<or> k div 8 = 5 \<or> k div 8 = 6 \<or> k div 8 = 7 \<or> k div 8 = 8 \<or> k div 8 = 9
      \<or> k div 8 = 10 \<or> k div 8 = 11"
    by (simp only: b_def)
  then have c: "onRecv_check ?d =
      Inl (if k < 8 then BadMagic else if k < 16 then BadVersion else BadCrc)"
  proof (elim disjE, goal_cases)
    case 1
    then show ?thesis
      unfolding onRecv_check_bytes [OF len'] k8 k16
      using x [of "0xA5"] by (simp add: nth ok(1))
  next
    case 2
    then show ?thesis
      unfolding onRecv_check_bytes [OF len'] k8 k16
      using x [of 1] by (simp add: nth ok(1,2) del: One_nat_def)
  next
    case 3
    then show ?thesis
      unfolding onRecv_check_bytes [OF len'] k8 k16
      using x [of "d ! 11"] by (simp add: nth ok(1,2) ok(3) [symmetric] ac_simps del: One_nat_def)
  next
    case 4
    then show ?thesis
      unfolding onRecv_check_bytes [OF len'] k8 k16
      using x [of "d ! 11"] by (simp add: nth ok(1,2) ok(3) [symmetric] ac_simps del: One_nat_def)
  next
    case 5
    then show ?thesis
      unfolding onRecv_check_bytes [OF len'] k8 k16
      using x [of "d ! 11"] by (simp add: nth ok(1,2) ok(3) [symmetric] ac_simps del: One_nat_def)
  next
    case 6
    then show ?thesis
      unfolding onRecv_check_bytes [OF len'] k8 k16
      using x [of "d ! 11"] by (simp add: nth ok(1,2) ok(3) [symmetric] ac_simps del: One_nat_def)
  next
    case 7
    then show ?thesis
      unfolding onRecv_check_bytes [OF len'] k8 k16
      using x [of "d ! 11"] by (simp add: nth ok(1,2) ok(3) [symmetric] ac_simps del: One_nat_def)
  next
    case 8
    then show ?thesis
      unfolding onRecv_check_bytes [OF len'] k8 k16
      using x [of "d ! 11"] by (simp add: nth ok(1,2) ok(3) [symmetric] ac_simps del: One_nat_def)
  next
    case 9
    then show ?thesis
      unfolding onRecv_check_bytes [OF len'] k8 k16
      using x [of "d ! 11"] by (simp add: nth ok(1,2) ok(3) [symmetric] ac_simps del: One_nat_def)
  next
    case 10
    then show ?thesis
      unfolding onRecv_check_bytes [OF len'] k8 k16
      using x [of "d ! 11"] by (simp add: nth ok(1,2) ok(3) [symmetric] ac_simps del: One_nat_def)
  next
    case 11
    then show ?thesis
      unfolding onRecv_check_bytes [OF len'] k8 k16
      using x [of "d ! 11"] by (simp add: nth ok(1,2) ok(3) [symmetric] ac_simps del: One_nat_def)
  next
    case 12
    then show ?thesis
      unfolding onRecv_check_bytes [OF len'] k8 k16
      using x [of "d ! 11"] by (simp add: nth ok(1,2) ok(3) [unfolded ok(1,2)] neq_commute del: One_nat_def)
  qed
  then have "onRecv now ?d st = st"
    by (rule onRecv_reject)
  with c len show ?thesis
    by simp
qed

lemma sample_Payload_bytes:
  "Payload_bytes \<lparr>magic = 0xA5, version = 1, leftStatus = 1, rightStatus = 0, flags = 1,
     seq = 7, ms = 1000, crc = 0x48\<rparr> = [0xA5, 1, 1, 0, 1, 7, 0, 0xE8, 3, 0, 0, 0x48]"
  by (simp add: Payload_bytes_def le_byte_def)

lemma sample_make_crc:
  "make_crc \<lparr>magic = 0xA5, version = 1, leftStatus = 1, rightStatus = 0, flags = 1,
     seq = 7, ms = 1000, crc = c\<rparr> = 0x48"
  by (simp add: make_crc_def Payload_bytes_def le_byte_def sizeof_Payload_def upt11)

text \<open>
  The round trip at a concrete packet: left status ON, right status OFF, data seen,
  sequence number 7, sender clock 1000; and at the frame the transmitter sends for that
  state.
\<close>

theorem decode_encode_witness:
  "magic \<lparr>magic = 0xA5, version = 1, leftStatus = 1, rightStatus = 0, flags = 1,
       seq = 7, ms = 1000, crc = 0x48\<rparr> = 0xA5
   \<and> version \<lparr>magic = 0xA5, version = 1, leftStatus = 1, rightStatus = 0, flags = 1,
       seq = 7, ms = 1000, crc = 0x48\<rparr> = 1
   \<and> crc \<lparr>magic = 0xA5, version = 1, leftStatus = 1, rightStatus = 0, flags = 1,
       seq = 7, ms = 1000, crc = 0x48\<rparr> =
     make_crc \<lparr>magic = 0xA5, version = 1, leftStatus = 1, rightStatus = 0, flags = 1,
       seq = 7, ms = 1000, crc = 0x48\<rparr>
   \<and> onRecv_check [0xA5, 1, 1, 0, 1, 7, 0, 0xE8, 3, 0, 0, 0x48] =
       Inr \<lparr>magic = 0xA5, version = 1, leftStatus = 1, rightStatus = 0, flags = 1,
         seq = 7, ms = 1000, crc = 0x48\<rparr>
   \<and> rx_leftStatus (onRecv 5 [0xA5, 1, 1, 0, 1, 7, 0, 0xE8, 3, 0, 0, 0x48] (rx_setup True)) = 1
   \<and> rx_rightStatus (onRecv 5 [0xA5, 1, 1, 0, 1, 7, 0, 0xE8, 3, 0, 0, 0x48] (rx_setup True)) = 0
   \<and> rx_haveSeenData (onRecv 5 [0xA5, 1, 1, 0, 1, 7, 0, 0xE8, 3, 0, 0, 0x48] (rx_setup True))
   \<and> fst (sendPacket True 1000
         \<lparr>tx_seq = 6, tx_leftStatus = 1, tx_rightStatus = 0, tx_haveSeenData = True,
          lastFrameMs = 990, lastHeartbeatMs = 900, prevL = 1, prevR = 0, prevFlags = 1\<rparr>) =
       [[0xA5, 1, 1, 0, 1, 7, 0, 0xE8, 3, 0, 0, 0x48]]"
proof -
  let ?p = "\<lparr>magic = 0xA5, version = 1, leftStatus = 1, rightStatus = 0, flags = 1,
       seq = 7, ms = 1000, crc = 0x48\<rparr> :: Payload"
  let ?tx = "\<lparr>tx_seq = 6, tx_leftStatus = 1, tx_rightStatus = 0, tx_haveSeenData = True,
          lastFrameMs = 990, lastHeartbeatMs = 900, prevL = 1, prevR = 0, prevFlags = 1\<rparr>"
  have h: "magic ?p = 0xA5" "version ?p = 1" "crc ?p = make_crc ?p"
    by (simp_all add: sample_make_crc)
  have s: "fst (sendPacket True 1000 ?tx) = [[0xA5, 1, 1, 0, 1, 7, 0, 0xE8, 3, 0, 0, 0x48]]"
    by (simp add: sendPacket_def Let_def sample_make_crc sample_Payload_bytes)
  from decode_encode [OF h, of 5 "rx_setup True" True 1000 ?tx
      "[0xA5, 1, 1, 0, 1, 7, 0, 0xE8, 3, 0, 0, 0x48]"] h s
  show ?thesis
    by (simp add: sample_Payload_bytes)
qed

text \<open>
  The frame the transmitter sends is 12 bytes long and is accepted; cut down to 11 bytes
  it is rejected for its length alone, with no bit flipped. No 11-byte frame is a valid
  format-A packet.
\<close>

theorem eleven_byte_frame_counterexample:
  "length (Payload_bytes \<lparr>magic = 0xA5, version = 1, leftStatus = 1, rightStatus = 0,
       flags = 1, seq = 7, ms = 1000, crc = 0x48\<rparr>) = 12
   \<and> onRecv_check (Payload_bytes \<lparr>magic = 0xA5, version = 1, leftStatus = 1, rightStatus = 0,
       flags = 1, seq = 7, ms = 1000, crc = 0x48\<rparr>) =
       Inr \<lparr>magic = 0xA5, version = 1, leftStatus = 1, rightStatus = 0, flags = 1,
         seq = 7, ms = 1000, crc = 0x48\<rparr>
   \<and> onRecv_check (take 11 (Payload_bytes \<lparr>magic = 0xA5, version = 1, leftStatus = 1,
       rightStatus = 0, flags = 1, seq = 7, ms = 1000, crc = 0x48\<rparr>)) = Inl BadLength"
proof -
  let ?p = "\<lparr>magic = 0xA5, version = 1, leftStatus = 1, rightStatus = 0, flags = 1,
       seq = 7, ms = 1000, crc = 0x48\<rparr> :: Payload"
  have "onRecv_check (Payload_bytes ?p) = Inr ?p"
    by (rule onRecv_check_valid) (simp_all add: sample_make_crc)
  moreover have "onRecv_check (take 11 (Payload_bytes ?p)) = Inl BadLength"
    by (simp add: onRecv_check_def Payload_bytes_length sizeof_Payload_def)
  ultimately show ?thesis
    by (simp add: Payload_bytes_length)
qed

text \<open>
  Single-bit corruption at a concrete frame: bit 2 of the left-status byte (bit 18 of the
  frame) flipped fails the checksum check, bit 0 of the magic byte the magic check, and
  the receiver stays as \<open>setup()\<close> left it.
\<close>

theorem single_bit_flip_rejected_witness:
  "onRecv_check [0xA5, 1, 1, 0, 1, 7, 0, 0xE8, 3, 0, 0, 0x48] =
       Inr \<lparr>magic = 0xA5, version = 1, leftStatus = 1, rightStatus = 0, flags = 1,
         seq = 7, ms = 1000, crc = 0x48\<rparr>
   \<and> (18 :: nat) < 8 * length [0xA5, 1, 1, 0, 1, 7, 0, 0xE8, 3, 0, 0, 0x48 :: u8]
   \<and> flip_wire_bit 18 [0xA5, 1, 1, 0, 1, 7, 0, 0xE8, 3, 0, 0, 0x48] =
       [0xA5, 1, 5, 0, 1, 7, 0, 0xE8, 3, 0, 0, 0x48]
   \<and> onRecv_check [0xA5, 1, 5, 0, 1, 7, 0, 0xE8, 3, 0, 0, 0x48] = Inl BadCrc
   \<and> onRecv 5 [0xA5, 1, 5, 0, 1, 7, 0, 0xE8, 3, 0, 0, 0x48] (rx_setup True) = rx_setup True
   \<and> flip_wire_bit 0 [0xA5, 1, 1, 0, 1, 7, 0, 0xE8, 3, 0, 0, 0x48] =
       [0xA4, 1, 1, 0, 1, 7, 0, 0xE8, 3, 0, 0, 0x48]
   \<and> onRecv_check [0xA4, 1, 1, 0, 1, 7, 0, 0xE8, 3, 0, 0, 0x48] = Inl BadMagic"
proof -
  let ?p = "\<lparr>magic = 0xA5, version = 1, leftStatus = 1, rightStatus = 0, flags = 1,
       seq = 7, ms = 1000, crc = 0x48\<rparr> :: Payload"
  let ?d = "[0xA5, 1, 1, 0, 1, 7, 0, 0xE8, 3, 0, 0, 0x48] :: u8 list"
  have "onRecv_check (Payload_bytes ?p) = Inr ?p"
    by (rule onRecv_check_valid) (simp_all add: sample_make_crc)
  then have v: "onRecv_check ?d = Inr ?p"
    by (simp only: sample_Payload_bytes)
  have f: "flip_wire_bit 18 ?d = [0xA5, 1, 5, 0, 1, 7, 0, 0xE8, 3, 0, 0, 0x48]"
    "flip_wire_bit 0 ?d = [0xA4, 1, 1, 0, 1, 7, 0, 0xE8, 3, 0, 0, 0x48]"
    by (simp_all add: flip_wire_bit_def)
  have k: "(18 :: nat) < 8 * length ?d" "(0 :: nat) < 8 * length ?d"
    by simp_all
  from single_bit_flip_rejected [OF v k(1), of 5 "rx_setup True"]
    single_bit_flip_rejected [OF v k(2), of 5 "rx_setup True"] v f k(1)
  show ?thesis
    by simp
qed

section \<open>Priority arbiter\<close>

lemma priority_constants_distinct:
  "distinct [P_NONE, P_TURN, P_CHARGING, P_AUTOPILOT, P_TRACK, P_PLUGGED]"
  by (simp add: P_NONE_def P_TURN_def P_CHARGING_def P_AUTOPILOT_def P_TRACK_def P_PLUGGED_def)

text \<open>
  Claim C4. For every combination of the master alerts flag, the per-category enable
  flags, the debounced turn state of the side and the raw condition bits, \<open>pickPriority\<close>
  returns one of the six pairwise different codes NONE, TURN, CHARGING, AUTOPILOT, TRACK,
  PLUGGED. With the master flag off it is NONE. Otherwise it is the first category, in the
  order Turn, Charging, Autopilot, Track, Plugged, whose condition holds and whose own
  enable flag is set, and NONE when there is none.
\<close>

theorem pickPriority_order:
  "pickPriority eff turnActive b \<in> {P_NONE, P_TURN, P_CHARGING, P_AUTOPILOT, P_TRACK, P_PLUGGED}
   \<and> distinct [P_NONE, P_TURN, P_CHARGING, P_AUTOPILOT, P_TRACK, P_PLUGGED]
   \<and> (\<not> eff_alerts eff \<longrightarrow> pickPriority eff turnActive b = P_NONE)
   \<and> (pickPriority eff turnActive b = P_TURN \<longleftrightarrow>
        eff_alerts eff \<and> turnActive \<and> eff_turn eff)
   \<and> (pickPriority eff turnActive b = P_CHARGING \<longleftrightarrow>
        eff_alerts eff \<and> \<not> (turnActive \<and> eff_turn eff) \<and> charging b \<and> eff_charging eff)
   \<and> (pickPriority eff turnActive b = P_AUTOPILOT \<longleftrightarrow>
        eff_alerts eff \<and> \<not> (turnActive \<and> eff_turn eff) \<and> \<not> (charging b \<and> eff_charging eff)
        \<and> ap_on b \<and> eff_ap eff)
   \<and> (pickPriority eff turnActive b = P_TRACK \<longleftrightarrow>
        eff_alerts eff \<and> \<not> (turnActive \<and> eff_turn eff) \<and> \<not> (charging b \<and> eff_charging eff)
        \<and> \<not> (ap_on b \<and> eff_ap eff) \<and> track_on b \<and> eff_track eff)
   \<and> (pickPriority eff turnActive b = P_PLUGGED \<longleftrightarrow>
        eff_alerts eff \<and> \<not> (turnActive \<and> eff_turn eff) \<and> \<not> (charging b \<and> eff_charging eff)
        \<and> \<not> (ap_on b \<and> eff_ap eff) \<and> \<not> (track_on b \<and> eff_track eff)
        \<and> plugged b \<and> eff_plugged eff)
   \<and> (pickPriority eff turnActive b = P_NONE \<longleftrightarrow>
        \<not> eff_alerts eff
        \<or> (\<not> (turnActive \<and> eff_turn eff) \<and> \<not> (charging b \<and> eff_charging eff)
           \<and> \<not> (ap_on b \<and> eff_ap eff) \<and> \<not> (track_on b \<and> eff_track eff)
           \<and> \<not> (plugged b \<and> eff_plugged eff)))"
proof -
  note d = priority_constants_distinct
  have c: "P_NONE \<noteq> P_TURN" "P_NONE \<noteq> P_CHARGING" "P_NONE \<noteq> P_AUTOPILOT" "P_NONE \<noteq> P_TRACK"
    "P_NONE \<noteq> P_PLUGGED" "P_TURN \<noteq> P_CHARGING" "P_TURN \<noteq> P_AUTOPILOT" "P_TURN \<noteq> P_TRACK"
    "P_TURN \<noteq> P_PLUGGED" "P_CHARGING \<noteq> P_AUTOPILOT" "P_CHARGING \<noteq> P_TRACK"
    "P_CHARGING \<noteq> P_PLUGGED" "P_AUTOPILOT \<noteq> P_TRACK" "P_AUTOPILOT \<noteq> P_PLUGGED"
    "P_TRACK \<noteq> P_PLUGGED"
    using d by simp_all
  show ?thesis
    unfolding pickPriority_def using d c c [symmetric]
    by (simp split: if_splits)
qed

text \<open>
  The theorem at a concrete input: the turn signal is active on the side while the car
  is also charging, every flag enabled; the arbiter selects TURN.
\<close>

theorem pickPriority_order_witness:
  "pickPriority
     \<lparr>eff_alerts = True, eff_turn = True, eff_charging = True, eff_ap = True,
      eff_track = True, eff_plugged = True\<rparr>
     True
     \<lparr>left_on = True, right_on = False, ap_on = False, charging = True, plugged = True,
      track_on = False, reserved = 0\<rparr> = P_TURN
   \<and> pickPriority
     \<lparr>eff_alerts = False, eff_turn = True, eff_charging = True, eff_ap = True,
      eff_track = True, eff_plugged = True\<rparr>
     True
     \<lparr>left_on = True, right_on = False, ap_on = False, charging = True, plugged = True,
      track_on = False, reserved = 0\<rparr> = P_NONE"
  using pickPriority_order [of
      "\<lparr>eff_alerts = True, eff_turn = True, eff_charging = True, eff_ap = True,
        eff_track = True, eff_plugged = True\<rparr>" True
      "\<lparr>left_on = True, right_on = False, ap_on = False, charging = True, plugged = True,
        track_on = False, reserved = 0\<rparr>"]
    pickPriority_order [of
      "\<lparr>eff_alerts = False, eff_turn = True, eff_charging = True, eff_ap = True,
        eff_track = True, eff_plugged = True\<rparr>" True
      "\<lparr>left_on = True, right_on = False, ap_on = False, charging = True, plugged = True,
        track_on = False, reserved = 0\<rparr>"]
  by simp

section \<open>Turn-signal debouncer\<close>

lemma hold_less_iff:
  "(d :: u32) > ucast (hold :: u16) \<longleftrightarrow> unat hold < unat d"
proof -
  have "unat hold < 2 ^ 32"
    using unsigned_less [of hold, where ?'a = nat] by simp
  then have "unat (ucast hold :: u32) = unat hold"
    by (simp add: unsigned_ucast_eq take_bit_nat_eq_self)
  then show ?thesis by (simp add: word_less_nat_alt)
qed

lemma updateTurnSide_False:
  "updateTurnSide hold ts False now =
     (if active ts \<and> unat hold < unat (now - lastSeenMs ts) then ts\<lparr>active := False\<rparr> else ts)"
  by (simp add: updateTurnSide_def hold_less_iff)

lemma run_snoc:
  "updateTurnSide_run hold ts (xs @ [(rawOn, now)]) =
     updateTurnSide hold (updateTurnSide_run hold ts xs) rawOn now"
  by (simp add: updateTurnSide_run_def)

lemma run_append:
  "updateTurnSide_run hold ts (xs @ ys) =
     updateTurnSide_run hold (updateTurnSide_run hold ts xs) ys"
  by (simp add: updateTurnSide_run_def)

lemma run_Cons:
  "updateTurnSide_run hold ts ((rawOn, now) # xs) =
     updateTurnSide_run hold (updateTurnSide hold ts rawOn now) xs"
  by (simp add: updateTurnSide_run_def)

lemma run_Nil: "updateTurnSide_run hold ts [] = ts"
  by (simp add: updateTurnSide_run_def)

lemma false_run_lastSeen:
  "lastSeenMs (updateTurnSide_run hold ts (map (Pair False) xs)) = lastSeenMs ts"
  by (induction xs arbitrary: ts) (simp_all add: run_Nil run_Cons updateTurnSide_False)

lemma false_run_stays_inactive:
  "\<not> active ts \<Longrightarrow> \<not> active (updateTurnSide_run hold ts (map (Pair False) xs))"
  by (induction xs arbitrary: ts) (simp_all add: run_Nil run_Cons updateTurnSide_False)

lemma false_run_short_gap:
  assumes "active ts" and "\<forall>t\<in>set xs. unat (t - lastSeenMs ts) \<le> unat hold"
  shows "updateTurnSide_run hold ts (map (Pair False) xs) = ts"
  using assms by (induction xs arbitrary: ts) (simp_all add: run_Nil run_Cons updateTurnSide_False)

lemma false_run_long_gap:
  assumes "unat hold < unat (t - lastSeenMs ts)"
  shows "\<not> active (updateTurnSide_run hold ts (map (Pair False) (xs @ [t])))"
proof -
  let ?s = "updateTurnSide_run hold ts (map (Pair False) xs)"
  have "lastSeenMs ?s = lastSeenMs ts" by (rule false_run_lastSeen)
  then have "\<not> active (updateTurnSide hold ?s False t)"
    using assms by (simp add: updateTurnSide_False)
  then show ?thesis by (simp add: run_snoc)
qed

text \<open>
  Claim C5. One side of the debouncer, updated once per render tick from the raw sample:
  a true sample sets \<open>active\<close> and stores the tick's time; through a run of false samples
  whose distance from the last true sample stays below the hold threshold, \<open>active\<close> is
  true after every tick, and after the true sample that ends the gap; and once the
  distance of a false sample from the last true sample has reached the threshold, any
  later false sample (one at a larger distance) leaves \<open>active\<close> cleared. Distances are
  differences of the 32-bit millisecond clock.
\<close>

theorem updateTurnSide_debounce:
  "(active (updateTurnSide hold ts True now) \<and> lastSeenMs (updateTurnSide hold ts True now) = now)
   \<and> ((\<forall>t\<in>set gap. unat (t - t0) < unat hold) \<longrightarrow>
        (\<forall>k\<le>length gap.
           active (updateTurnSide_run hold ts ((True, t0) # map (Pair False) (take k gap))))
        \<and> active (updateTurnSide_run hold ts ((True, t0) # map (Pair False) gap @ [(True, t3)])))
   \<and> (unat hold \<le> unat (t1 - t0) \<and> unat (t1 - t0) < unat (t2 - t0) \<longrightarrow>
        \<not> active (updateTurnSide_run hold ts
            ((True, t0) # map (Pair False) (pre @ [t1] @ mid @ [t2]))))"
proof -
  let ?s0 = "updateTurnSide hold ts True t0"
  have s0: "active ?s0" "lastSeenMs ?s0 = t0"
    by (simp_all add: updateTurnSide_def)
  have a: "active (updateTurnSide hold ts True now) \<and> lastSeenMs (updateTurnSide hold ts True now) = now"
    by (simp add: updateTurnSide_def)
  have b: "(\<forall>t\<in>set gap. unat (t - t0) < unat hold) \<longrightarrow>
     (\<forall>k\<le>length gap.
        active (updateTurnSide_run hold ts ((True, t0) # map (Pair False) (take k gap))))
     \<and> active (updateTurnSide_run hold ts ((True, t0) # map (Pair False) gap @ [(True, t3)]))"
  proof (intro impI conjI allI)
    fix k
    assume g: "\<forall>t\<in>set gap. unat (t - t0) < unat hold"
    have "\<forall>t\<in>set (take k gap). unat (t - lastSeenMs ?s0) \<le> unat hold"
      using g s0(2) by (auto dest: in_set_takeD simp: less_imp_le)
    then have "updateTurnSide_run hold ?s0 (map (Pair False) (take k gap)) = ?s0"
      using s0(1) by (rule false_run_short_gap [rotated])
    then show "active (updateTurnSide_run hold ts ((True, t0) # map (Pair False) (take k gap)))"
      using s0(1) by (simp add: run_Cons)
  next
    show "active (updateTurnSide_run hold ts ((True, t0) # map (Pair False) gap @ [(True, t3)]))"
      by (simp add: run_Cons run_append run_Nil updateTurnSide_def)
  qed
  have c: "unat hold \<le> unat (t1 - t0) \<and> unat (t1 - t0) < unat (t2 - t0) \<longrightarrow>
     \<not> active (updateTurnSide_run hold ts
         ((True, t0) # map (Pair False) (pre @ [t1] @ mid @ [t2])))"
  proof
    assume "unat hold \<le> unat (t1 - t0) \<and> unat (t1 - t0) < unat (t2 - t0)"
    then have "unat hold < unat (t2 - lastSeenMs ?s0)"
      using s0(2) by simp
    then have "\<not> active (updateTurnSide_run hold ?s0 (map (Pair False) ((pre @ [t1] @ mid) @ [t2])))"
      by (rule false_run_long_gap)
    then show "\<not> active (updateTurnSide_run hold ts
         ((True, t0) # map (Pair False) (pre @ [t1] @ mid @ [t2])))"
      by (simp add: run_Cons)
  qed
  from a b c show ?thesis by blast
qed

text \<open>
  The theorem at concrete inputs, with the default threshold of 200 ms: a true sample at
  1000, false samples at 1010, 1100 and 1190 (all less than 200 ms later), and a true
  sample at 1200 keep the side active throughout; a true sample at 1000 followed by false
  samples at 1200 (distance 200, the threshold reached) and 1210 clears it.
\<close>

theorem updateTurnSide_debounce_witness:
  "unat (1010 - 1000 :: u32) < unat (200 :: u16)
   \<and> unat (1100 - 1000 :: u32) < unat (200 :: u16)
   \<and> unat (1190 - 1000 :: u32) < unat (200 :: u16)
   \<and> active (updateTurnSide_run 200 \<lparr>active = False, lastSeenMs = 0\<rparr>
          [(True, 1000), (False, 1010)])
   \<and> active (updateTurnSide_run 200 \<lparr>active = False, lastSeenMs = 0\<rparr>
          [(True, 1000), (False, 1010), (False, 1100)])
   \<and> active (updateTurnSide_run 200 \<lparr>active = False, lastSeenMs = 0\<rparr>
          [(True, 1000), (False, 1010), (False, 1100), (False, 1190)])
   \<and> active (updateTurnSide_run 200 \<lparr>active = False, lastSeenMs = 0\<rparr>
          [(True, 1000), (False, 1010), (False, 1100), (False, 1190), (True, 1200)])
   \<and> unat (200 :: u16) \<le> unat (1200 - 1000 :: u32)
   \<and> unat (1200 - 1000 :: u32) < unat (1210 - 1000 :: u32)
   \<and> \<not> active (updateTurnSide_run 200 \<lparr>active = False, lastSeenMs = 0\<rparr>
          [(True, 1000), (False, 1200), (False, 1210)])"
proof -
  let ?ts = "\<lparr>active = False, lastSeenMs = 0\<rparr>"
  have g: "\<forall>t\<in>set [1010, 1100, 1190 :: u32]. unat (t - 1000) < unat (200 :: u16)"
    by simp
  have h: "unat (200 :: u16) \<le> unat (1200 - 1000 :: u32)
      \<and> unat (1200 - 1000 :: u32) < unat (1210 - 1000 :: u32)"
    by simp
  note t = updateTurnSide_debounce [of 200 ?ts 1000 "[1010, 1100, 1190]" 1000 1200 1200 1210
      "[]" "[]"]
  from t g have k: "\<forall>k\<le>length [1010, 1100, 1190 :: u32].
      active (updateTurnSide_run 200 ?ts ((True, 1000) # map (Pair False) (take k [1010, 1100, 1190])))"
    by blast
  have k1: "active (updateTurnSide_run 200 ?ts [(True, 1000), (False, 1010)])"
    using k [rule_format, of 1] by simp
  have k2: "active (updateTurnSide_run 200 ?ts [(True, 1000), (False, 1010), (False, 1100)])"
    using k [rule_format, of 2] by (simp add: numeral_2_eq_2)
  have k3: "active (updateTurnSide_run 200 ?ts
      [(True, 1000), (False, 1010), (False, 1100), (False, 1190)])"
    using k [rule_format, of 3] by simp
  from t g have e: "active (updateTurnSide_run 200 ?ts
      ((True, 1000) # map (Pair False) [1010, 1100, 1190] @ [(True, 1200)]))"
    by blast
  from t h have c: "\<not> active (updateTurnSide_run 200 ?ts
      ((True, 1000) # map (Pair False) ([] @ [1200] @ [] @ [1210])))"
    by blast
  from g h k1 k2 k3 e c show ?thesis
    by simp
qed

section \<open>Heartbeat\<close>






lemma sendPacket_length_le: "length (fst (sendPacket force now st)) \<le> 1"
  by (simp add: sendPacket_def Let_def)










section \<open>Transport liveness\<close>










section \<open>Mode lifecycle\<close>













section \<open>Sequence numbers\<close>

lemma reseq_A_nth:
  assumes "length d = 12"
  shows "reseq_A s d ! 0 = d ! 0" "reseq_A s d ! 1 = d ! 1" "reseq_A s d ! 2 = d ! 2"
    "reseq_A s d ! 3 = d ! 3" "reseq_A s d ! 4 = d ! 4" "reseq_A s d ! 5 = le_byte 0 s"
    "reseq_A s d ! 6 = le_byte 1 s" "reseq_A s d ! 7 = d ! 7" "reseq_A s d ! 8 = d ! 8"
    "reseq_A s d ! 9 = d ! 9" "reseq_A s d ! 10 = d ! 10"
    "reseq_A s d ! 11 = d ! 11 XOR d ! 5 XOR d ! 6 XOR le_byte 0 s XOR le_byte 1 s"
  using assms by (simp_all add: reseq_A_def sizeof_Payload_def del: One_nat_def)

lemma reseq_A_length: "length (reseq_A s d) = length d"
  by (simp add: reseq_A_def)

lemma xor_cancel_iff: "(a XOR x = b XOR x) = (a = (b :: u8))"
proof
  assume "a XOR x = b XOR x"
  then have "(a XOR x) XOR x = (b XOR x) XOR x"
    by simp
  then show "a = b"
    by (simp add: xor.assoc)
qed simp

lemma onRecv_check_reseq:
  assumes "length d = 12"
  shows "onRecv_check (reseq_A s d) =
    (case onRecv_check d of
       Inl e \<Rightarrow> Inl e
     | Inr p \<Rightarrow> Inr (p\<lparr>seq := s,
         crc := crc p XOR d ! 5 XOR d ! 6 XOR le_byte 0 s XOR le_byte 1 s\<rparr>))"
proof -
  define m where "m = d ! 5 XOR d ! 6 XOR le_byte 0 s XOR le_byte 1 s"
  define S where "S = d ! 0 XOR d ! 1 XOR d ! 2 XOR d ! 3 XOR d ! 4 XOR d ! 5 XOR d ! 6
    XOR d ! 7 XOR d ! 8 XOR d ! 9 XOR d ! 10"
  let ?d = "reseq_A s d"
  have l: "length ?d = 12"
    using assms by (simp add: reseq_A_length)
  note n = reseq_A_nth [OF assms, of s]
  have p: "Payload_of_bytes ?d = (Payload_of_bytes d)\<lparr>seq := s, crc := d ! 11 XOR m\<rparr>"
    unfolding Payload_of_bytes_def n m_def by (simp add: le_roundtrip_Suc)
  have c: "crc (Payload_of_bytes d) = d ! 11"
    by (simp add: Payload_of_bytes_def)
  have "?d ! 0 XOR ?d ! 1 XOR ?d ! 2 XOR ?d ! 3 XOR ?d ! 4 XOR ?d ! 5 XOR ?d ! 6 XOR ?d ! 7
      XOR ?d ! 8 XOR ?d ! 9 XOR ?d ! 10 = S XOR m"
    unfolding n S_def m_def by (simp add: ac_simps del: One_nat_def)
  moreover have "?d ! 11 = d ! 11 XOR m"
    unfolding n m_def ..
  ultimately have k: "(?d ! 0 XOR ?d ! 1 XOR ?d ! 2 XOR ?d ! 3 XOR ?d ! 4 XOR ?d ! 5 XOR ?d ! 6
      XOR ?d ! 7 XOR ?d ! 8 XOR ?d ! 9 XOR ?d ! 10 \<noteq> ?d ! 11) = (S \<noteq> d ! 11)"
    by (simp only: xor_cancel_iff)
  have 1: "onRecv_check ?d =
    (if d ! 0 \<noteq> 0xA5 then Inl BadMagic
     else if d ! 1 \<noteq> 1 then Inl BadVersion
     else if S \<noteq> d ! 11 then Inl BadCrc
     else Inr ((Payload_of_bytes d)\<lparr>seq := s, crc := d ! 11 XOR m\<rparr>))"
    by (subst onRecv_check_bytes [OF l], subst k) (simp only: p n(1,2))
  have 2: "onRecv_check d =
    (if d ! 0 \<noteq> 0xA5 then Inl BadMagic
     else if d ! 1 \<noteq> 1 then Inl BadVersion
     else if S \<noteq> d ! 11 then Inl BadCrc
     else Inr (Payload_of_bytes d))"
    unfolding onRecv_check_bytes [OF assms] S_def ..
  show ?thesis
    unfolding 1 2 m_def [symmetric] by (simp add: c)
qed

lemma onRecv_reseq: "onRecv now (reseq_A s d) st = onRecv now d st"
proof (cases "length d = 12")
  case False
  then show ?thesis
    by (simp add: reseq_A_def sizeof_Payload_def)
next
  case True
  show ?thesis
    unfolding onRecv_def onRecv_check_reseq [OF True]
    by (simp split: sum.split)
qed

lemma rx_run_reseq:
  assumes "length ss = length evs"
  shows "rx_run initPulse (map2 rx_event_reseq ss evs) st = rx_run initPulse evs st"
  using assms
proof (induction ss evs arbitrary: st rule: list_induct2)
  case Nil
  then show ?case by simp
next
  case (Cons s ss e evs)
  have "rx_step initPulse st (rx_event_reseq s e) = rx_step initPulse st e"
    by (cases e) (simp_all add: onRecv_reseq)
  then show ?case
    using Cons.IH by (simp add: rx_run_def)
qed

lemma reseq_B_length: "length (reseq_B s d) = length d"
  by (simp add: reseq_B_def)

lemma Packet_of_bytes_reseq:
  assumes "length d = 5"
  shows "Packet_of_bytes (reseq_B s d) = (Packet_of_bytes d)\<lparr>pkt_seq := s\<rparr>"
  using assms
  by (simp add: Packet_of_bytes_def reseq_B_def sizeof_Packet_def le_roundtrip_Suc
      le32_roundtrip)

lemma on_data_recv_reseq:
  "rxw_forget_seq (on_data_recv rssi now (reseq_B s d) st) =
     rxw_forget_seq (on_data_recv rssi now d st)"
proof (cases "length d = 5")
  case False
  then show ?thesis
    by (simp add: reseq_B_def sizeof_Packet_def)
next
  case True
  then show ?thesis
    by (simp add: on_data_recv_def reseq_B_length sizeof_Packet_def Packet_of_bytes_reseq
        rxw_forget_seq_def Let_def split: option.split)
qed

lemma on_data_recv_forget:
  "rxw_forget_seq (on_data_recv rssi now d (rxw_forget_seq st)) =
     rxw_forget_seq (on_data_recv rssi now d st)"
  by (simp add: on_data_recv_def rxw_forget_seq_def Let_def split: option.split)

lemma applySidePulse_upd:
  "applySidePulse pulse (st\<lparr>g_lastPkt := q\<rparr>) = applySidePulse pulse st"
  "applySidePulse pulse (st\<lparr>loop_lastFrameMs := t\<rparr>) = applySidePulse pulse st"
  "applySidePulse pulse (st\<lparr>g_leftTurn := l\<rparr>) = applySidePulse pulse st"
  "applySidePulse pulse (st\<lparr>g_rightTurn := r\<rparr>) = applySidePulse pulse st"
  by (simp_all add: applySidePulse_def Let_def fun_eq_iff)

lemma rxw_loop_forget:
  "rxw_forget_seq (rxw_loop pulse now st) = rxw_loop pulse now (rxw_forget_seq st)"
proof (cases "now - loop_lastFrameMs st < ucast (g_frameMs st)")
  case True
  then show ?thesis
    by (simp add: rxw_loop_def rxw_forget_seq_def)
next
  case False
  show ?thesis
  proof (cases "g_testMode st")
    case True
    with False show ?thesis
      by (simp add: rxw_loop_def rxw_forget_seq_def Let_def applySidePulse_upd)
  next
    case nt: False
    show ?thesis
    proof (cases "g_hasPkt st")
      case True
      with False nt show ?thesis
        by (simp add: rxw_loop_def rxw_forget_seq_def Let_def applySidePulse_upd)
    next
      case nh: False
      with False nt show ?thesis
        by (simp add: rxw_loop_def rxw_forget_seq_def Let_def)
    qed
  qed
qed

lemma rxw_step_reseq:
  assumes "rxw_forget_seq st' = rxw_forget_seq st"
  shows "rxw_forget_seq (rxw_step pulse st' (rxw_event_reseq s e)) =
    rxw_forget_seq (rxw_step pulse st e)"
proof (cases e)
  case (RecvW rssi now d)
  have "rxw_forget_seq (on_data_recv rssi now (reseq_B s d) st') =
      rxw_forget_seq (on_data_recv rssi now d (rxw_forget_seq st'))"
    by (simp only: on_data_recv_reseq on_data_recv_forget)
  also have "\<dots> = rxw_forget_seq (on_data_recv rssi now d st)"
    by (simp only: assms on_data_recv_forget)
  finally show ?thesis
    using RecvW by simp
next
  case (TickW now)
  then show ?thesis
    using assms by (simp add: rxw_loop_forget)
qed

lemma rxw_run_reseq:
  assumes "length ss = length evs" and "rxw_forget_seq st' = rxw_forget_seq st"
  shows "rxw_forget_seq (rxw_run pulse (map2 rxw_event_reseq ss evs) st') =
    rxw_forget_seq (rxw_run pulse evs st)"
  using assms
proof (induction ss evs arbitrary: st st' rule: list_induct2)
  case Nil
  then show ?case by (simp add: rxw_run_def)
next
  case (Cons s ss e evs)
  have "rxw_forget_seq (rxw_step pulse st' (rxw_event_reseq s e)) =
      rxw_forget_seq (rxw_step pulse st e)"
    using Cons.prems by (rule rxw_step_reseq)
  then have "rxw_forget_seq (rxw_run pulse (map2 rxw_event_reseq ss evs)
        (rxw_step pulse st' (rxw_event_reseq s e))) =
      rxw_forget_seq (rxw_run pulse evs (rxw_step pulse st e))"
    by (rule Cons.IH)
  then show ?case
    by (simp add: rxw_run_def)
qed

lemma rxw_forget_seq_fields:
  assumes "rxw_forget_seq a = rxw_forget_seq b"
  shows "bits (g_lastPkt a) = bits (g_lastPkt b)" "g_hasPkt a = g_hasPkt b"
    "stripL a = stripL b" "stripR a = stripR b" "g_leftTurn a = g_leftTurn b"
    "g_rightTurn a = g_rightTurn b" "g_lastPktMs a = g_lastPktMs b"
proof -
  have "bits (g_lastPkt (rxw_forget_seq a)) = bits (g_lastPkt (rxw_forget_seq b))"
    "g_hasPkt (rxw_forget_seq a) = g_hasPkt (rxw_forget_seq b)"
    "stripL (rxw_forget_seq a) = stripL (rxw_forget_seq b)"
    "stripR (rxw_forget_seq a) = stripR (rxw_forget_seq b)"
    "g_leftTurn (rxw_forget_seq a) = g_leftTurn (rxw_forget_seq b)"
    "g_rightTurn (rxw_forget_seq a) = g_rightTurn (rxw_forget_seq b)"
    "g_lastPktMs (rxw_forget_seq a) = g_lastPktMs (rxw_forget_seq b)"
    by (simp_all only: assms)
  then show "bits (g_lastPkt a) = bits (g_lastPkt b)" "g_hasPkt a = g_hasPkt b"
    "stripL a = stripL b" "stripR a = stripR b" "g_leftTurn a = g_leftTurn b"
    "g_rightTurn a = g_rightTurn b" "g_lastPktMs a = g_lastPktMs b"
    by (simp_all add: rxw_forget_seq_def)
qed

text \<open>
  Claim C9. The receivers never look at the sequence number. A format-A frame with its
  sequence field overwritten (and its checksum byte adjusted) is accepted or rejected as
  the original is and leaves the receiver in the same state; so two runs of the format-A
  receiver on event streams that differ only in the sequence fields of corresponding
  frames end in the same state: status codes, data-seen flag, mode, strip and every frame
  shown. Two such runs of the web receiver, whose format has no checksum, end in states
  that differ at most in the stored sequence number: state bits, packet flag, both
  debouncers, both strips and every frame shown are the same. Nothing is assumed of the
  sequence numbers, so repeated and out-of-order ones are treated like fresh ones.
\<close>

theorem seq_independent:
  assumes "length ss = length evs" and "length ws = length wevs"
  shows "isl (onRecv_check (reseq_A s d)) = isl (onRecv_check d)
    \<and> onRecv now (reseq_A s d) st = onRecv now d st
    \<and> rx_run initPulse (map2 rx_event_reseq ss evs) st = rx_run initPulse evs st
    \<and> rxw_forget_seq (rxw_run pulse (map2 rxw_event_reseq ws wevs) wst) =
        rxw_forget_seq (rxw_run pulse wevs wst)
    \<and> bits (g_lastPkt (rxw_run pulse (map2 rxw_event_reseq ws wevs) wst)) =
        bits (g_lastPkt (rxw_run pulse wevs wst))
    \<and> g_hasPkt (rxw_run pulse (map2 rxw_event_reseq ws wevs) wst) =
        g_hasPkt (rxw_run pulse wevs wst)
    \<and> stripL (rxw_run pulse (map2 rxw_event_reseq ws wevs) wst) =
        stripL (rxw_run pulse wevs wst)
    \<and> stripR (rxw_run pulse (map2 rxw_event_reseq ws wevs) wst) =
        stripR (rxw_run pulse wevs wst)
    \<and> g_leftTurn (rxw_run pulse (map2 rxw_event_reseq ws wevs) wst) =
        g_leftTurn (rxw_run pulse wevs wst)
    \<and> g_rightTurn (rxw_run pulse (map2 rxw_event_reseq ws wevs) wst) =
        g_rightTurn (rxw_run pulse wevs wst)"
proof -
  have a: "isl (onRecv_check (reseq_A s d)) = isl (onRecv_check d)"
  proof (cases "length d = 12")
    case True
    then show ?thesis
      by (simp add: onRecv_check_reseq split: sum.split)
  next
    case False
    then show ?thesis
      by (simp add: reseq_A_def sizeof_Payload_def)
  qed
  have f: "rxw_forget_seq (rxw_run pulse (map2 rxw_event_reseq ws wevs) wst) =
        rxw_forget_seq (rxw_run pulse wevs wst)"
    using assms(2) by (rule rxw_run_reseq) simp
  from a onRecv_reseq [of now s d st] rx_run_reseq [OF assms(1), of initPulse st] f
    rxw_forget_seq_fields(1-6) [OF f]
  show ?thesis
    by (intro conjI)
qed

text \<open>
  The theorem at concrete streams: the format-A frame with sequence number 7 replaced by
  the one with sequence number 9 (checksum \<open>0x46\<close> in place of \<open>0x48\<close>), and the
  format-B frame with sequence number 1 replaced by the one with sequence number 77,
  each followed by a pass of the loop.
\<close>

theorem seq_independent_witness:
  "length [9, 0 :: u16] =
     length [Recv 5 [0xA5, 1, 1, 0, 1, 7, 0, 0xE8, 3, 0, 0, 0x48], Tick 6]
   \<and> length [77, 0 :: u32] = length [RecvW None 1000 [1, 0, 0, 0, 1], TickW 1010]
   \<and> reseq_A 9 [0xA5, 1, 1, 0, 1, 7, 0, 0xE8, 3, 0, 0, 0x48] =
       [0xA5, 1, 1, 0, 1, 9, 0, 0xE8, 3, 0, 0, 0x46]
   \<and> reseq_B 77 [1, 0, 0, 0, 1] = [77, 0, 0, 0, 1]
   \<and> onRecv 5 [0xA5, 1, 1, 0, 1, 9, 0, 0xE8, 3, 0, 0, 0x46] (rx_setup True) =
       onRecv 5 [0xA5, 1, 1, 0, 1, 7, 0, 0xE8, 3, 0, 0, 0x48] (rx_setup True)
   \<and> rx_run (\<lambda>t. 0) [Recv 5 [0xA5, 1, 1, 0, 1, 9, 0, 0xE8, 3, 0, 0, 0x46], Tick 6]
         (rx_setup True) =
       rx_run (\<lambda>t. 0) [Recv 5 [0xA5, 1, 1, 0, 1, 7, 0, 0xE8, 3, 0, 0, 0x48], Tick 6]
         (rx_setup True)
   \<and> stripL (rxw_run (\<lambda>c t p. c) [RecvW None 1000 [77, 0, 0, 0, 1], TickW 1010] rxw_boot) =
       stripL (rxw_run (\<lambda>c t p. c) [RecvW None 1000 [1, 0, 0, 0, 1], TickW 1010] rxw_boot)
   \<and> bits (g_lastPkt
         (rxw_run (\<lambda>c t p. c) [RecvW None 1000 [77, 0, 0, 0, 1], TickW 1010] rxw_boot)) =
       bits (g_lastPkt
         (rxw_run (\<lambda>c t p. c) [RecvW None 1000 [1, 0, 0, 0, 1], TickW 1010] rxw_boot))"
proof -
  let ?d = "[0xA5, 1, 1, 0, 1, 7, 0, 0xE8, 3, 0, 0, 0x48] :: u8 list"
  let ?evs = "[Recv 5 ?d, Tick 6]"
  let ?wevs = "[RecvW None 1000 [1, 0, 0, 0, 1], TickW 1010]"
  have l: "length [9, 0 :: u16] = length ?evs" "length [77, 0 :: u32] = length ?wevs"
    by simp_all
  have a: "reseq_A 9 ?d = [0xA5, 1, 1, 0, 1, 9, 0, 0xE8, 3, 0, 0, 0x46]"
    by (simp add: reseq_A_def sizeof_Payload_def le_byte_def)
  have b: "reseq_B 77 [1, 0, 0, 0, 1] = [77, 0, 0, 0, 1]"
    by (simp add: reseq_B_def sizeof_Packet_def le_byte_def)
  have m: "map2 rx_event_reseq [9, 0] ?evs =
      [Recv 5 [0xA5, 1, 1, 0, 1, 9, 0, 0xE8, 3, 0, 0, 0x46], Tick 6]"
    by (simp add: a)
  have w: "map2 rxw_event_reseq [77, 0] ?wevs = [RecvW None 1000 [77, 0, 0, 0, 1], TickW 1010]"
    by (simp add: b)
  note t = seq_independent [OF l, of 9 ?d 5 "rx_setup True" "\<lambda>t. 0" "\<lambda>c t p. c" rxw_boot,
      unfolded m w a]
  from t l a b show ?thesis
    by blast
qed

section \<open>Tail rendering\<close>

lemma sint_succ:
  assumes "i <s (n :: 16 word)"
  shows "sint (i + 1) = sint i + 1"
proof -
  have lt: "sint i < sint n"
    using assms by (simp add: word_sless_alt)
  have "sint n < 2 ^ (LENGTH(16) - 1)"
    by (rule sint_lt)
  then have up: "sint i + 1 < 32768"
    using lt by simp
  have "- (2 ^ (LENGTH(16) - 1)) \<le> sint i"
    by (rule sint_ge)
  then have lo: "- 32768 \<le> sint i + 1"
    by simp
  have "sint (i + 1) = signed_take_bit (LENGTH(16) - 1) (sint i + sint (1 :: 16 word))"
    by (rule sint_word_ariths)
  also have "\<dots> = sint i + 1"
    using lo up by (simp add: signed_take_bit_int_eq_self)
  finally show ?thesis .
qed

lemma of_nat_nat_sint:
  assumes "0 \<le> sint (i :: 16 word)"
  shows "of_nat (nat (sint i)) = i"
  using assms by simp

lemma fillTail_loop_upt:
  "0 \<le> sint i \<Longrightarrow> fillTail_loop i n = map of_nat [nat (sint i)..<nat (sint n)]"
proof (induction i n rule: fillTail_loop.induct)
  case (1 i n)
  show ?case
  proof (cases "i <s n")
    case True
    then have lt: "sint i < sint n"
      by (simp add: word_sless_alt)
    have s: "sint (i + 1) = sint i + 1"
      using True by (rule sint_succ)
    then have "0 \<le> sint (i + 1)"
      using "1.prems" by simp
    then have "fillTail_loop (i + 1) n = map of_nat [nat (sint (i + 1))..<nat (sint n)]"
      using True by (rule "1.IH" [rotated])
    moreover have "nat (sint (i + 1)) = Suc (nat (sint i))"
      using s "1.prems" by simp
    moreover have "[nat (sint i)..<nat (sint n)] = nat (sint i) # [Suc (nat (sint i))..<nat (sint n)]"
      using lt "1.prems" by (simp add: upt_conv_Cons)
    ultimately show ?thesis
      using True of_nat_nat_sint [OF "1.prems"]
      by (subst fillTail_loop.simps) simp
  next
    case False
    then have "sint n \<le> sint i"
      by (simp add: word_sless_alt)
    then show ?thesis
      using False by (subst fillTail_loop.simps) simp
  qed
qed

lemma uint_eq_sint:
  assumes "0 \<le> sint (w :: 16 word)"
  shows "uint w = sint w"
proof -
  have "sint w < 2 ^ (LENGTH(16) - 1)"
    by (rule sint_lt)
  then have "sint w < 2 ^ 16"
    by simp
  then have "take_bit 16 (sint w) = sint w"
    using assms by (simp add: take_bit_int_eq_self)
  then show ?thesis
    by (simp add: uint_sint)
qed

lemma uint_less_int_iff: "uint w < int k \<longleftrightarrow> unat w < k"
  by (simp only: uint_nat of_nat_less_iff)

lemma sint_eq_uint_small:
  assumes "unat (w :: 16 word) < 32768"
  shows "sint w = int (unat w)"
proof -
  have hi: "uint w < 2 ^ 15"
    using assms uint_less_int_iff [of w 32768] by simp
  have "- (2 ^ 15) \<le> (0 :: int)"
    by simp
  also have "0 \<le> uint w"
    by simp
  finally have lo: "- (2 ^ 15) \<le> uint w" .
  have "signed_take_bit 15 (uint w) = uint w"
    using lo hi by (rule signed_take_bit_int_eq_self)
  then have "sint w = uint w"
    by (simp add: sint_uint)
  then show ?thesis
    by (simp only: uint_nat)
qed

lemma sint_negative_big:
  assumes "32768 \<le> unat (w :: 16 word)"
  shows "sint w < 0"
proof (rule ccontr)
  assume "\<not> sint w < 0"
  then have "0 \<le> sint w" by simp
  then have "uint w = sint w" by (rule uint_eq_sint)
  moreover have "sint w < 2 ^ (LENGTH(16) - 1)" by (rule sint_lt)
  ultimately have "uint w < 32768" by simp
  then show False using assms uint_less_int_iff [of w 32768] by simp
qed

lemma fillTail_start_nonneg:
  "0 \<le> sint (if st <s 0 then 0 else (st :: 16 word))"
  by (simp add: word_sless_alt)

lemma fillTail_indices_big:
  assumes "32768 \<le> unat np"
  shows "fillTail_indices np tail = []"
proof -
  have "sint np < 0"
    using assms by (rule sint_negative_big)
  then have "nat (sint np) = 0"
    by simp
  then show ?thesis
    unfolding fillTail_indices_def Let_def
    by (simp only: fillTail_loop_upt [OF fillTail_start_nonneg] upt_0 list.map)
qed

lemma unat_tail_cast: "unat (ucast (tail :: u8) :: 16 word) = unat tail"
proof -
  have "unat tail < 2 ^ 16"
    using unsigned_less [of tail, where ?'a = nat] by simp
  then show ?thesis
    by (simp add: unsigned_ucast_eq take_bit_nat_eq_self)
qed

lemma fillTail_start:
  assumes "unat (np :: 16 word) < 32768"
  shows "nat (sint (if np - ucast tail <s 0 then 0 else np - ucast (tail :: u8))) =
    unat np - unat tail"
proof -
  have t: "unat tail < 256"
    using unsigned_less [of tail, where ?'a = nat] by simp
  have n: "sint np = int (unat np)"
    using assms by (rule sint_eq_uint_small)
  have "unat (ucast tail :: 16 word) < 32768"
    using t by (simp only: unat_tail_cast)
  then have "sint (ucast tail :: 16 word) = int (unat (ucast tail :: 16 word))"
    by (rule sint_eq_uint_small)
  then have c: "sint (ucast tail :: 16 word) = int (unat tail)"
    by (simp only: unat_tail_cast)
  have "sint (np - ucast tail) =
      signed_take_bit (LENGTH(16) - 1) (sint np - sint (ucast tail :: 16 word))"
    by (rule sint_word_ariths)
  also have "\<dots> = signed_take_bit 15 (uint np - uint tail)"
    by (simp only: n c) simp
  also have "\<dots> = uint np - uint tail"
  proof -
    define a b where "a = uint np" and "b = uint tail"
    have ti: "b < 256"
      unfolding b_def using t uint_less_int_iff [of tail 256] by simp
    have ni: "a < 32768"
      unfolding a_def using assms uint_less_int_iff [of np 32768] by simp
    have z: "0 \<le> a" "0 \<le> b"
      by (simp_all add: a_def b_def)
    have "- (2 ^ 15) \<le> a - b"
      using ti z by simp
    moreover have "a - b < 2 ^ 15"
      using ni z by simp
    ultimately have "signed_take_bit 15 (a - b) = a - b"
      by (rule signed_take_bit_int_eq_self)
    then show ?thesis
      by (simp only: a_def b_def)
  qed
  also have "\<dots> = int (unat np) - int (unat tail)"
    by (simp only: uint_nat)
  finally have d: "sint (np - ucast tail) = int (unat np) - int (unat tail)" .
  define x y where "x = unat np" and "y = unat tail"
  have d': "sint (np - ucast tail) = int x - int y"
    by (simp only: d x_def y_def)
  show ?thesis
  proof (cases "np - ucast tail <s 0")
    case True
    then have "int x - int y < 0"
      unfolding word_sless_alt d' sint_0 .
    then have "x - y = 0"
      by simp
    then show ?thesis
      using True by (simp only: x_def y_def if_True sint_0)
  next
    case False
    then have "\<not> int x - int y < 0"
      unfolding word_sless_alt d' sint_0 .
    then have "nat (int x - int y) = x - y"
      by simp
    then show ?thesis
      using False by (simp only: d' if_False x_def y_def)
  qed
qed

lemma fillTail_indices_small:
  assumes "unat np < 32768"
  shows "fillTail_indices np tail = map of_nat [unat np - unat tail..<unat np]"
proof -
  have "nat (sint np) = unat np"
    using sint_eq_uint_small [OF assms] by simp
  then show ?thesis
    unfolding fillTail_indices_def Let_def
    by (simp only: fillTail_loop_upt [OF fillTail_start_nonneg] fillTail_start [OF assms])
qed

lemma unat_of_nat16:
  "k < 65536 \<Longrightarrow> unat (of_nat k :: 16 word) = k"
  by (simp add: unat_of_nat)

lemma fillTail_indices_bound:
  "i \<in> set (fillTail_indices np tail) \<Longrightarrow> unat i < unat np"
proof (cases "unat np < 32768")
  case True
  assume "i \<in> set (fillTail_indices np tail)"
  then obtain k where k: "i = of_nat k" "k < unat np"
    unfolding fillTail_indices_small [OF True] by auto
  then have "k < 65536" using True by simp
  then show ?thesis using k by (simp add: unat_of_nat16)
next
  case False
  assume "i \<in> set (fillTail_indices np tail)"
  then show ?thesis using False by (simp add: fillTail_indices_big)
qed

lemma setPixelColor_length:
  "length (pixels (setPixelColor s n c)) = length (pixels s)"
  by (simp add: setPixelColor_def)

lemma fold_setPixelColor_length:
  "length (pixels (fold (\<lambda>i s. setPixelColor s i c) is s)) = length (pixels s)"
  by (induction "is" arbitrary: s) (simp_all add: setPixelColor_length)

lemma fold_setPixelColor_prefix:
  assumes "k \<le> length (pixels s)" and "length (pixels s) < 65536"
  shows "pixels (fold (\<lambda>i s. setPixelColor s i c) (map of_nat [0..<k]) s) =
    replicate k c @ drop k (pixels s)"
  using assms(1)
proof (induction k)
  case 0
  then show ?case by simp
next
  case (Suc k)
  let ?s = "fold (\<lambda>i s. setPixelColor s i c) (map of_nat [0..<k]) s"
  have ih: "pixels ?s = replicate k c @ drop k (pixels s)"
    using Suc by simp
  have k: "unat (of_nat k :: 16 word) = k"
    using Suc.prems assms(2) by (simp add: unat_of_nat16)
  have len: "length (pixels ?s) = length (pixels s)"
    by (rule fold_setPixelColor_length)
  have "pixels (setPixelColor ?s (of_nat k) c) = (pixels ?s)[k := c]"
    using Suc.prems len by (simp add: setPixelColor_def k)
  also have "\<dots> = replicate k c @ (drop k (pixels s))[0 := c]"
    by (simp add: ih list_update_append)
  also have "\<dots> = replicate k c @ c # drop (Suc k) (pixels s)"
    using Suc.prems by (cases "drop k (pixels s)") (simp_all add: drop_Suc drop_tl)
  also have "\<dots> = replicate (Suc k) c @ drop (Suc k) (pixels s)"
    by (simp add: replicate_app_Cons_same)
  finally show ?case by simp
qed

text \<open>
  Claim C10. \<open>fillTail\<close> hands \<open>setPixelColor\<close> only indices below \<open>numPixels\<close>, for
  every strip length and every tail value. For a strip of fewer than 32768 pixels the
  indices are exactly \<open>numPixels - tail, \<dots>, numPixels - 1\<close> with the start clamped at 0;
  so a tail at least as long as the strip recolours the whole strip, every index
  \<open>0, \<dots>, numPixels - 1\<close> once, and leaves its length alone.
\<close>

theorem fillTail_indices_in_range:
  "(\<forall>i\<in>set (fillTail_indices np tail). unat i < unat np)
   \<and> (unat np < 32768 \<longrightarrow>
        fillTail_indices np tail = map of_nat [unat np - unat tail..<unat np])
   \<and> (unat np \<le> unat tail \<longrightarrow> fillTail_indices np tail = map of_nat [0..<unat np])
   \<and> length (pixels (fillTail s c tail)) = length (pixels s)
   \<and> (length (pixels s) \<le> unat tail \<longrightarrow>
        pixels (fillTail s c tail) = replicate (length (pixels s)) (toColor c))"
proof -
  have t: "unat tail < 256"
    using unsigned_less [of tail, where ?'a = nat] by simp
  have a: "\<forall>i\<in>set (fillTail_indices np tail). unat i < unat np"
    by (simp add: fillTail_indices_bound)
  have b: "unat np < 32768 \<longrightarrow>
      fillTail_indices np tail = map of_nat [unat np - unat tail..<unat np]"
    by (simp add: fillTail_indices_small)
  have c: "unat np \<le> unat tail \<longrightarrow> fillTail_indices np tail = map of_nat [0..<unat np]"
    using t by (simp add: fillTail_indices_small)
  have d: "length (pixels (fillTail s c tail)) = length (pixels s)"
    by (simp add: fillTail_def fold_setPixelColor_length)
  have e: "length (pixels s) \<le> unat tail \<longrightarrow>
      pixels (fillTail s c tail) = replicate (length (pixels s)) (toColor c)"
  proof
    assume l: "length (pixels s) \<le> unat tail"
    then have l': "length (pixels s) < 65536"
      using t by simp
    then have n: "unat (numPixels s) = length (pixels s)"
      by (simp add: numPixels_def unat_of_nat16)
    then have "fillTail_indices (numPixels s) tail = map of_nat [0..<length (pixels s)]"
      using l t by (simp add: fillTail_indices_small)
    then show "pixels (fillTail s c tail) = replicate (length (pixels s)) (toColor c)"
      using fold_setPixelColor_prefix [of "length (pixels s)" s "toColor c"] l'
      by (simp add: fillTail_def)
  qed
  from a b c d e show ?thesis by blast
qed

text \<open>
  The theorem at concrete inputs: a strip of 4 pixels with a tail of 6 is recoloured at
  the indices 0..3, and with a tail of 1 at the index 3 only.
\<close>

theorem fillTail_indices_in_range_witness:
  "unat (4 :: u16) \<le> unat (6 :: u8) \<and> unat (4 :: u16) < 32768
   \<and> fillTail_indices 4 6 = [0, 1, 2, 3]
   \<and> fillTail_indices 4 1 = [3]
   \<and> length (pixels \<lparr>pixels = [1, 2, 3, 4], shown = []\<rparr>) \<le> unat (6 :: u8)
   \<and> pixels (fillTail \<lparr>pixels = [1, 2, 3, 4], shown = []\<rparr> (RGB 0 0 255) 6) =
       [255, 255, 255, 255]"
proof -
  let ?s = "\<lparr>pixels = [1, 2, 3, 4], shown = []\<rparr>"
  have u: "[0..<4] = [0, 1, 2, 3]" "[3..<4] = [3]"
    by (simp_all add: upt_rec)
  have r: "replicate (length [1, 2, 3, 4 :: u32]) c = [c, c, c, c]" for c :: u32
    by simp
  have h: "unat (4 :: u16) \<le> unat (6 :: u8)" "unat (4 :: u16) < 32768"
    "length (pixels ?s) \<le> unat (6 :: u8)"
    by simp_all
  note a = fillTail_indices_in_range [of 4 6 ?s "RGB 0 0 255"]
  note b = fillTail_indices_in_range [of 4 1 ?s "RGB 0 0 255"]
  have 1: "fillTail_indices 4 6 = [0, 1, 2, 3]"
    using a h(1) by (simp add: u)
  have 3: "fillTail_indices 4 1 = [3]"
    using b h(2) by (simp add: u)
  have "pixels (fillTail ?s (RGB 0 0 255) 6) = replicate (length (pixels ?s)) (toColor (RGB 0 0 255))"
    using a h(3) by blast
  then have 4: "pixels (fillTail ?s (RGB 0 0 255) 6) = [255, 255, 255, 255]"
    by (simp add: r)
  from h 1 3 4 show ?thesis
    by blast
qed


end
